theory Spec2Isabelle
  imports Main
begin

section \<open>Strings of the runtime\<close>

text \<open>
  Keys and text values are strings, modelled as lists of characters (the
  code units of the string, taken from the first 256). The decoder looks at
  single characters in three places: the bracket characters at which a key is
  split, the decimal digits of the test \<^verbatim>\<open>/^\d+$/\<close> and of
  \<^verbatim>\<open>parseInt\<close>, and the white space and sign that \<^verbatim>\<open>parseInt\<close>
  skips.
\<close>

definition bracket :: "char \<Rightarrow> bool" where
  "bracket c = (c = CHR ''['' \<or> c = CHR '']'')"

definition digit :: "char \<Rightarrow> bool" where
  "digit c = (c \<in> set ''0123456789'')"

definition white :: "char \<Rightarrow> bool" where
  "white c = (c \<in> set [CHR 0x09, CHR 0x0A, CHR 0x0B, CHR 0x0C, CHR 0x0D, CHR '' '', CHR 0xA0])"

definition digit_value :: "char \<Rightarrow> nat" where
  "digit_value c = length (takeWhile (\<lambda>d. d \<noteq> c) ''0123456789'')"

definition digit_char :: "nat \<Rightarrow> char" where
  "digit_char d = ''0123456789'' ! d"

text \<open>The number a string of decimal digits denotes, and the decimal
  numeral of a number (\<^verbatim>\<open>`${index}`\<close> for an array index).\<close>

definition decimal :: "string \<Rightarrow> nat" where
  "decimal ds = foldl (\<lambda>n c. 10 * n + digit_value c) 0 ds"

fun show_nat :: "nat \<Rightarrow> string" where
  "show_nat n = (if n < 10 then [digit_char n] else show_nat (n div 10) @ [digit_char (n mod 10)])"

declare show_nat.simps [simp del]

definition show_int :: "int \<Rightarrow> string" where
  "show_int i = (if i < 0 then CHR ''-'' # show_nat (nat (- i)) else show_nat (nat i))"

text \<open>\<^verbatim>\<open>/^\d+$/.test(key)\<close>\<close>

definition all_digits :: "string \<Rightarrow> bool" where
  "all_digits key = (key \<noteq> [] \<and> list_all digit key)"

text \<open>\<^verbatim>\<open>key.split(/[\[\]]+/)\<close>: the pieces between maximal runs of bracket
  characters; a run at the start or at the end of the key leaves an empty
  piece there, and the empty key splits into one empty piece.\<close>

function split_brackets :: "string \<Rightarrow> string list" where
  "split_brackets [] = [[]]"
| "split_brackets (c # cs) =
     (if bracket c then [] # split_brackets (dropWhile bracket cs)
      else (case split_brackets cs of
              p # ps \<Rightarrow> (c # p) # ps
            | [] \<Rightarrow> [[c]]))"
  by pat_completeness auto
termination
  by (relation "measure length") (auto simp: less_Suc_eq_le length_dropWhile_le)

definition segments :: "string \<Rightarrow> string list" where
  \<comment> \<open>\<^verbatim>\<open>key.split(/[\[\]]+/).filter((k) => k !== '')\<close>\<close>
  "segments key = filter (\<lambda>k. k \<noteq> []) (split_brackets key)"

text \<open>\<^verbatim>\<open>parseInt(s, 10)\<close>: leading white space is skipped, then an optional
  sign, then the longest run of digits is read; without a digit the result is
  \<^verbatim>\<open>NaN\<close> (\<open>None\<close>).\<close>

definition parseInt :: "string \<Rightarrow> int option" where
  "parseInt s =
     (let t = dropWhile white s;
          neg = (t \<noteq> [] \<and> hd t = CHR ''-'');
          u = (if t \<noteq> [] \<and> (hd t = CHR ''-'' \<or> hd t = CHR ''+'') then tl t else t);
          ds = takeWhile digit u
      in if ds = [] then None
         else Some (if neg then - int (decimal ds) else int (decimal ds)))"

section \<open>The nested value tree\<close>

text \<open>
  The values the decoder builds and meets. A plain object is the list of its
  own properties in creation order. An array is the list of its elements
  (\<open>None\<close> is a hole, its \<^verbatim>\<open>length\<close> is the length of the list) and
  the list of its other own properties, those whose key is not an array index.
  A \<^verbatim>\<open>File\<close> is an opaque object known by its identity (see \<open>file_id\<close>
  below), and \<open>Fn\<close> is a builtin function that an object inherits from its
  prototype, known by the name it is inherited under.

  The tree is what \<^verbatim>\<open>toObject\<close> allocates during one call, so no two
  places of it hold the same container, and updating a container in place is
  modelled by rebuilding the path that leads to it.
\<close>

text \<open>
  The identity of a \<^verbatim>\<open>File\<close> that a form holds. \<open>Given n\<close> is a
  \<^verbatim>\<open>File\<close> object that was appended to the form, known by a number (for
  the encoder, its address). \<open>Made a\<close> is the \<^verbatim>\<open>File\<close> named
  \<^verbatim>\<open>blob\<close> that \<^verbatim>\<open>FormData.append\<close> creates when it is given a
  \<^verbatim>\<open>Blob\<close> that is not a \<^verbatim>\<open>File\<close>: a new object with the bytes of the
  \<^verbatim>\<open>Blob\<close> at the address \<open>a\<close>.
\<close>

datatype file_id = Given nat | Made nat

datatype jsval =
    Str string
  | Blob file_id
  | Fn string
  | Obj "(string \<times> jsval) list"
  | Arr "jsval option list" "(string \<times> jsval) list"

text \<open>The entries of a \<^verbatim>\<open>FormData\<close>: pairs of a key and a value that is a
  text or a \<^verbatim>\<open>File\<close>, in the order of \<^verbatim>\<open>entries()\<close>.\<close>

datatype entry = Text string | File file_id

type_synonym formdata = "(string \<times> entry) list"

fun entry_value :: "entry \<Rightarrow> jsval" where
  "entry_value (Text s) = Str s"
| "entry_value (File b) = Blob b"

text \<open>
  What a run does that is not a return: the error \<^verbatim>\<open>fromObject\<close> throws
  at a cyclic reference, the two exceptions the runtime raises, and
  \<open>Unmodelled\<close> where the run goes on in a way this model does not
  follow: it enters an object that is not part of the tree (a
  \<^verbatim>\<open>File\<close> of the input or a prototype object of the runtime, which are
  shared), or it needs a number beyond \<open>2^53\<close>, where \<^verbatim>\<open>parseInt\<close>
  rounds.
\<close>

datatype failure = CyclicReference | RangeError | TypeError | Unmodelled

subsection \<open>Reading a property\<close>

text \<open>
  The names every object inherits from \<^verbatim>\<open>Object.prototype\<close>, and those an
  array inherits from \<^verbatim>\<open>Array.prototype\<close> (ECMAScript 2024); each is a
  function. \<^verbatim>\<open>__proto__\<close> is the prototype object itself.
\<close>

definition object_prototype :: "string list" where
  "object_prototype =
     [''constructor'', ''hasOwnProperty'', ''isPrototypeOf'', ''propertyIsEnumerable'',
      ''toLocaleString'', ''toString'', ''valueOf'', ''__defineGetter__'',
      ''__defineSetter__'', ''__lookupGetter__'', ''__lookupSetter__'']"

definition array_prototype :: "string list" where
  "array_prototype =
     [''at'', ''concat'', ''copyWithin'', ''entries'', ''every'', ''fill'', ''filter'',
      ''find'', ''findIndex'', ''findLast'', ''findLastIndex'', ''flat'', ''flatMap'',
      ''forEach'', ''includes'', ''indexOf'', ''join'', ''keys'', ''lastIndexOf'', ''map'',
      ''pop'', ''push'', ''reduce'', ''reduceRight'', ''reverse'', ''shift'', ''slice'',
      ''some'', ''sort'', ''splice'', ''toReversed'', ''toSorted'', ''toSpliced'',
      ''unshift'', ''values'', ''with'']"

text \<open>A key is an array index when it is the decimal numeral of a number
  below \<open>2^32 - 1\<close>.\<close>

definition array_index :: "string \<Rightarrow> nat option" where
  "array_index k =
     (if all_digits k \<and> (k = ''0'' \<or> hd k \<noteq> CHR ''0'') \<and> decimal k < 4294967295
      then Some (decimal k) else None)"

datatype lookup = Undefined | Value jsval | Length nat | Prototype

text \<open>What the prototype of every object gives for a name that is not
  \<^verbatim>\<open>__proto__\<close>.\<close>

definition inherited :: "string \<Rightarrow> lookup" where
  "inherited k = (if k \<in> set object_prototype then Value (Fn k) else Undefined)"

text \<open>
  \<^verbatim>\<open>current[key]\<close> for a plain object or an array. \<^verbatim>\<open>__proto__\<close> is the
  prototype object, whatever the own properties are (an assignment cannot
  create an own property of that name); the \<^verbatim>\<open>length\<close> of an array is
  its own; any other name is the own property, else what the prototype chain
  gives. A value that is no container is never read from.
\<close>

fun get :: "jsval \<Rightarrow> string \<Rightarrow> lookup" where
  "get (Obj ps) k =
     (if k = ''__proto__'' then Prototype
      else (case map_of ps k of Some v \<Rightarrow> Value v | None \<Rightarrow> inherited k))"
| "get (Arr es ps) k =
     (case array_index k of
        Some n \<Rightarrow> (if n < length es then (case es ! n of Some v \<Rightarrow> Value v | None \<Rightarrow> Undefined)
                   else Undefined)
      | None \<Rightarrow>
          if k = ''__proto__'' then Prototype
          else if k = ''length'' then Length (length es)
          else (case map_of ps k of
                  Some v \<Rightarrow> Value v
                | None \<Rightarrow> if k \<in> set array_prototype then Value (Fn k) else inherited k))"
| "get v k = Undefined"

text \<open>\<^verbatim>\<open>typeof x === 'object'\<close> for the result of a read, and
  \<^verbatim>\<open>Array.isArray\<close>.\<close>

fun typeof_object :: "lookup \<Rightarrow> bool" where
  "typeof_object (Value (Obj ps)) = True"
| "typeof_object (Value (Arr es ps)) = True"
| "typeof_object (Value (Blob b)) = True"
| "typeof_object Prototype = True"
| "typeof_object l = False"

fun isArray :: "jsval \<Rightarrow> bool" where
  "isArray (Arr es ps) = True"
| "isArray v = False"

text \<open>The containers of the tree: plain objects and arrays.\<close>

fun is_container :: "jsval \<Rightarrow> bool" where
  "is_container (Obj ps) = True"
| "is_container (Arr es ps) = True"
| "is_container v = False"

subsection \<open>Writing a property\<close>

text \<open>An own property is replaced where it stands, a new one is added at
  the end.\<close>

fun update :: "string \<Rightarrow> jsval \<Rightarrow> (string \<times> jsval) list \<Rightarrow> (string \<times> jsval) list" where
  "update k v [] = [(k, v)]"
| "update k v (p # ps) = (if fst p = k then (k, v) # ps else p # update k v ps)"

text \<open>Writing the element \<open>n\<close> of an array: beyond the end, the array grows
  and the elements in between are holes.\<close>

definition set_element :: "jsval option list \<Rightarrow> nat \<Rightarrow> jsval \<Rightarrow> jsval option list" where
  "set_element es n v =
     (if n < length es then es[n := Some v]
      else es @ replicate (n - length es) None @ [Some v])"

text \<open>
  \<^verbatim>\<open>current[key] = v\<close>. On an array, a key that is an array index writes
  the element, and the key \<^verbatim>\<open>length\<close> sets the length: the only value this
  program ever assigns there is the empty object, which is no length, and the
  runtime raises \<^verbatim>\<open>RangeError\<close>. Assigning to \<^verbatim>\<open>__proto__\<close> replaces the
  prototype, assigning to a property of a text raises \<^verbatim>\<open>TypeError\<close> (the
  class body is strict code), and a \<^verbatim>\<open>File\<close> or a function is not part
  of the tree.
\<close>

fun put :: "jsval \<Rightarrow> string \<Rightarrow> jsval \<Rightarrow> failure + jsval" where
  "put (Obj ps) k v = (if k = ''__proto__'' then Inl Unmodelled else Inr (Obj (update k v ps)))"
| "put (Arr es ps) k v =
     (case array_index k of
        Some n \<Rightarrow> Inr (Arr (set_element es n v) ps)
      | None \<Rightarrow>
          if k = ''length'' then (if v = Obj [] then Inl RangeError else Inl Unmodelled)
          else if k = ''__proto__'' then Inl Unmodelled
          else Inr (Arr es (update k v ps)))"
| "put (Str s) k v = Inl TypeError"
| "put (Blob b) k v = Inl Unmodelled"
| "put (Fn f) k v = Inl Unmodelled"

text \<open>\<^verbatim>\<open>array.push(v)\<close>: an array of the largest length, \<open>2^32 - 1\<close>,
  cannot grow, and the runtime raises \<^verbatim>\<open>RangeError\<close>.\<close>

fun push :: "jsval \<Rightarrow> jsval \<Rightarrow> failure + jsval" where
  "push (Arr es ps) v = (if length es < 4294967295 then Inr (Arr (es @ [Some v]) ps) else Inl RangeError)"
| "push a v = Inl TypeError"

section \<open>Decoding: \<^verbatim>\<open>FormDataUtil.toObject\<close>\<close>

text \<open>The container a missing intermediate segment gets:
  \<^verbatim>\<open>/^\d+$/.test(key) ? [] : {}\<close>.\<close>

definition fresh :: "string \<Rightarrow> jsval" where
  "fresh key = (if all_digits key then Arr [] [] else Obj [])"

text \<open>The test of the loop body:
  \<^verbatim>\<open>typeof current !== 'object' || current === null || current[key] === undefined || typeof current[key] !== 'object'\<close>.
  The tree holds no \<^verbatim>\<open>null\<close>.\<close>

definition missing :: "jsval \<Rightarrow> string \<Rightarrow> bool" where
  "missing current key =
     (\<not> typeof_object (Value current) \<or> get current key = Undefined \<or> \<not> typeof_object (get current key))"

text \<open>
  One round of the loop over the intermediate segments: the assignment when
  the test holds, then \<^verbatim>\<open>current = current[key]\<close>. The result is
  \<^verbatim>\<open>current\<close> as the round leaves it and the value the next round
  starts from: the new container, or the object that was in the slot, a
  \<^verbatim>\<open>File\<close> included. A round that starts from a \<^verbatim>\<open>File\<close> reads and
  writes the properties of the \<^verbatim>\<open>File\<close> object, and a round that reads
  \<^verbatim>\<open>__proto__\<close> goes on in the prototype object: neither is followed.
\<close>

definition descend :: "jsval \<Rightarrow> string \<Rightarrow> failure + jsval \<times> jsval" where
  "descend current key =
     (if \<not> is_container current then Inl Unmodelled
      else
        (case (if missing current key then put current key (fresh key) else Inr current) of
           Inl e \<Rightarrow> Inl e
         | Inr current' \<Rightarrow>
             (case get current' key of
                Value next \<Rightarrow> Inr (current', next)
              | _ \<Rightarrow> Inl Unmodelled)))"

text \<open>The property key of \<^verbatim>\<open>current[index]\<close> for
  \<^verbatim>\<open>index = parseInt(lastKey, 10)\<close>: the string of the number.\<close>

definition index_key :: "string \<Rightarrow> string option" where
  "index_key lastKey =
     (case parseInt lastKey of
        None \<Rightarrow> Some ''NaN''
      | Some i \<Rightarrow> if \<bar>i\<bar> < 9007199254740992 then Some (show_int i) else None)"

text \<open>The four placements at the last segment, in the order of the source.
  The container reached is a plain object or an array.\<close>

definition place :: "jsval \<Rightarrow> string \<Rightarrow> jsval \<Rightarrow> failure + jsval" where
  "place current lastKey v =
     (if \<not> is_container current then Inl Unmodelled
      else if lastKey = [] then
        (if \<not> isArray current then Inr current else push current v)
      else if isArray current then
        (case index_key lastKey of None \<Rightarrow> Inl Unmodelled | Some k \<Rightarrow> put current k v)
      else
        (case get current lastKey of
           Undefined \<Rightarrow> put current lastKey v
         | Value old \<Rightarrow>
             if isArray old then
               (case push old v of Inl e \<Rightarrow> Inl e | Inr a \<Rightarrow> put current lastKey a)
             else put current lastKey (Arr [Some old, Some v] [])
         | _ \<Rightarrow> Inl Unmodelled))"

text \<open>The loop over \<^verbatim>\<open>keys\<close> followed by the placement. On the way back
  every container is stored where it was read: in the source it was changed
  in place.\<close>

fun walk :: "jsval \<Rightarrow> string list \<Rightarrow> string \<Rightarrow> jsval \<Rightarrow> failure + jsval" where
  "walk current [] lastKey v = place current lastKey v"
| "walk current (key # keys) lastKey v =
     (case descend current key of
        Inl e \<Rightarrow> Inl e
      | Inr (current', child) \<Rightarrow>
          (case walk child keys lastKey v of
             Inl e \<Rightarrow> Inl e
           | Inr child' \<Rightarrow> put current' key child'))"

definition assignNestedValue :: "jsval \<Rightarrow> string list \<Rightarrow> jsval \<Rightarrow> failure + jsval" where
  "assignNestedValue target keys v =
     (if keys = [] \<or> last keys = [] then Inr target
      else walk target (butlast keys) (last keys) v)"

fun decode :: "jsval \<Rightarrow> formdata \<Rightarrow> failure + jsval" where
  "decode obj [] = Inr obj"
| "decode obj ((key, v) # rest) =
     (case assignNestedValue obj (segments key) (entry_value v) of
        Inl e \<Rightarrow> Inl e
      | Inr obj' \<Rightarrow> decode obj' rest)"

definition toObject :: "formdata \<Rightarrow> failure + jsval" where
  "toObject formData = decode (Obj []) formData"

section \<open>The values \<^verbatim>\<open>fromObject\<close> reads\<close>

text \<open>
  The input of the encoder is any value of the runtime. Objects have an
  identity, may be shared and may contain themselves, so a value that is an
  object is a reference into a heap, and the heap gives the object behind
  each reference. The objects are told apart the way the source tells them
  apart, by \<^verbatim>\<open>instanceof\<close> and \<^verbatim>\<open>Array.isArray\<close>:
  \<^item> a \<^verbatim>\<open>Date\<close>, with the string \<^verbatim>\<open>toISOString()\<close> returns, or
    \<open>None\<close> for an invalid date, where \<^verbatim>\<open>toISOString()\<close> raises
    \<^verbatim>\<open>RangeError\<close>;
  \<^item> a \<^verbatim>\<open>Blob\<close> that is not a \<^verbatim>\<open>File\<close>, and a \<^verbatim>\<open>File\<close> (which is
    a \<^verbatim>\<open>Blob\<close> for \<^verbatim>\<open>instanceof\<close>);
  \<^item> an array, with its elements (\<open>None\<close> is a hole);
  \<^item> a \<^verbatim>\<open>Map\<close>, with its entries in insertion order;
  \<^item> a \<^verbatim>\<open>Set\<close>, with its members in insertion order;
  \<^item> any other object, with its own enumerable properties in the order of
    \<^verbatim>\<open>for ... in\<close>.
  The objects are ordinary ones: a property is a data property and the
  methods the encoder calls (\<^verbatim>\<open>toISOString\<close>, \<^verbatim>\<open>forEach\<close>) are the
  built-in ones. A getter, a \<^verbatim>\<open>Proxy\<close> or an overriding method would run
  code of the caller inside the encoder.
  A number is known by the string \<^verbatim>\<open>String\<close> gives for it, the only use
  the encoder makes of it. \<open>VOther\<close> is a value of any other type (a
  function, a symbol, a bigint).

  The key of a \<^verbatim>\<open>Map\<close> entry is any value, and the encoder only converts
  it to a string. \<open>Key s\<close> is a key that converts to the string \<open>s\<close>, by
  \<^verbatim>\<open>String(key)\<close> and inside a template literal alike (a string, a number,
  a boolean, an object with the usual \<^verbatim>\<open>toString\<close>). \<open>SymbolKey d\<close> is a
  \<^verbatim>\<open>Symbol\<close> of description \<open>d\<close>: \<^verbatim>\<open>String(key)\<close> gives
  \<^verbatim>\<open>Symbol(d)\<close> and a template literal raises \<^verbatim>\<open>TypeError\<close>.
  \<open>OpaqueKey\<close> is an object with no conversion to a primitive (such as
  \<^verbatim>\<open>Object.create(null)\<close>), where both raise \<^verbatim>\<open>TypeError\<close>. An array
  index and a property name are keys of the first sort.
\<close>

type_synonym addr = nat

datatype mapkey = Key string | SymbolKey string | OpaqueKey

datatype val =
    VUndefined
  | VNull
  | VBoolean bool
  | VNumber string
  | VString string
  | VOther
  | Ref addr

datatype object =
    DateObj "string option"
  | BlobObj
  | FileObj
  | ArrayObj "val option list"
  | MapObj "(mapkey \<times> val) list"
  | SetObj "val list"
  | PlainObj "(string \<times> val) list"

type_synonym heap = "addr \<Rightarrow> object"

section \<open>Encoding: \<^verbatim>\<open>FormDataUtil.fromObject\<close>\<close>

text \<open>\<^verbatim>\<open>form.append(namespace!, ...)\<close>: the name is converted to a string,
  and the absent namespace becomes the string \<^verbatim>\<open>undefined\<close>.\<close>

definition name :: "string option \<Rightarrow> string" where
  "name namespace = (case namespace of None \<Rightarrow> ''undefined'' | Some s \<Rightarrow> s)"

text \<open>\<^verbatim>\<open>namespace ? `${namespace}[${segment}]` : segment\<close>: the absent and
  the empty namespace are falsy.\<close>

definition child_key :: "string option \<Rightarrow> string \<Rightarrow> string" where
  "child_key namespace segment =
     (case namespace of
        None \<Rightarrow> segment
      | Some s \<Rightarrow> if s = [] then segment else s @ ''['' @ segment @ '']'')"

text \<open>
  The key under which a child is encoded, for a segment of any sort:
  \<^verbatim>\<open>namespace ? `${namespace}[${key}]` : String(key)\<close> (line 88; the lines
  83, 93 and 104 are the same expression on a segment that is a number or a
  string). The conversion of the segment can raise.
\<close>

fun formKey :: "string option \<Rightarrow> mapkey \<Rightarrow> failure + string" where
  "formKey namespace (Key s) = Inr (child_key namespace s)"
| "formKey namespace (SymbolKey d) =
     (if namespace = None \<or> namespace = Some [] then Inr (''Symbol('' @ d @ '')'')
      else Inl TypeError)"
| "formKey namespace OpaqueKey = Inl TypeError"

text \<open>\<^verbatim>\<open>String(obj)\<close> for a boolean, a number or a string.\<close>

definition String_boolean :: "bool \<Rightarrow> string" where
  "String_boolean b = (if b then ''true'' else ''false'')"

text \<open>
  The recursive calls an object leads to, as pairs of the path segment and
  the value, in the order the source makes them: the elements of an array
  with their indices (\<^verbatim>\<open>forEach\<close> skips holes), the entries of a
  \<^verbatim>\<open>Map\<close>, the members of a \<^verbatim>\<open>Set\<close> with their positions, and the own
  properties of a plain object whose value is not \<^verbatim>\<open>undefined\<close>. A
  \<^verbatim>\<open>Date\<close>, a \<^verbatim>\<open>Blob\<close> and a \<^verbatim>\<open>File\<close> lead to none.
\<close>

fun indexed :: "nat \<Rightarrow> val option list \<Rightarrow> (mapkey \<times> val) list" where
  "indexed i [] = []"
| "indexed i (None # es) = indexed (Suc i) es"
| "indexed i (Some v # es) = (Key (show_nat i), v) # indexed (Suc i) es"

definition properties :: "(string \<times> val) list \<Rightarrow> (mapkey \<times> val) list" where
  "properties ps = map (\<lambda>p. (Key (fst p), snd p)) (filter (\<lambda>p. snd p \<noteq> VUndefined) ps)"

fun children :: "object \<Rightarrow> (mapkey \<times> val) list" where
  "children (ArrayObj es) = indexed 0 es"
| "children (MapObj kvs) = kvs"
| "children (SetObj vs) = indexed 0 (map Some vs)"
| "children (PlainObj ps) = properties ps"
| "children (DateObj d) = []"
| "children BlobObj = []"
| "children FileObj = []"

text \<open>
  \<^verbatim>\<open>fromObject(obj, form, namespace, seen)\<close> and the loop over the recursive
  calls of one object. The form and the set \<^verbatim>\<open>seen\<close> are changed in place
  in the source, so both are passed on and returned. The first argument
  bounds the depth of the calls: every call takes one frame of the call
  stack, and \<open>None\<close> is the run that needs more frames than it has.
  \<^verbatim>\<open>form.append(namespace, obj)\<close> stores a \<^verbatim>\<open>File\<close> as it is and
  wraps a \<^verbatim>\<open>Blob\<close> that is not a \<^verbatim>\<open>File\<close> into a new \<^verbatim>\<open>File\<close>.
\<close>

fun fromObject :: "nat \<Rightarrow> heap \<Rightarrow> val \<Rightarrow> formdata \<Rightarrow> string option \<Rightarrow> addr set
                   \<Rightarrow> (failure + formdata \<times> addr set) option"
and forEach :: "nat \<Rightarrow> heap \<Rightarrow> (mapkey \<times> val) list \<Rightarrow> formdata \<Rightarrow> string option \<Rightarrow> addr set
                   \<Rightarrow> (failure + formdata \<times> addr set) option" where
  "fromObject 0 h obj form namespace seen = None"
| "fromObject (Suc n) h VUndefined form namespace seen = Some (Inr (form, seen))"
| "fromObject (Suc n) h VNull form namespace seen = Some (Inr (form, seen))"
| "fromObject (Suc n) h (Ref a) form namespace seen =
     (if a \<in> seen then Some (Inl CyclicReference)
      else
        (case h a of
           DateObj d \<Rightarrow>
             (case d of
                None \<Rightarrow> Some (Inl RangeError)
              | Some isoString \<Rightarrow>
                  Some (Inr (form @ [(name namespace, Text isoString)], insert a seen - {a})))
         | BlobObj \<Rightarrow>
             Some (Inr (form @ [(name namespace, File (Made a))], insert a seen - {a}))
         | FileObj \<Rightarrow>
             Some (Inr (form @ [(name namespace, File (Given a))], insert a seen - {a}))
         | composite \<Rightarrow>
             (case forEach n h (children composite) form namespace (insert a seen) of
                None \<Rightarrow> None
              | Some (Inl e) \<Rightarrow> Some (Inl e)
              | Some (Inr (form', seen')) \<Rightarrow> Some (Inr (form', seen' - {a})))))"
| "fromObject (Suc n) h (VBoolean b) form namespace seen =
     Some (Inr (form @ [(name namespace, Text (String_boolean b))], seen))"
| "fromObject (Suc n) h (VNumber s) form namespace seen =
     Some (Inr (form @ [(name namespace, Text s)], seen))"
| "fromObject (Suc n) h (VString s) form namespace seen =
     Some (Inr (form @ [(name namespace, Text s)], seen))"
| "fromObject (Suc n) h VOther form namespace seen = Some (Inr (form, seen))"
| "forEach n h [] form namespace seen = Some (Inr (form, seen))"
| "forEach n h ((segment, item) # rest) form namespace seen =
     (case formKey namespace segment of
        Inl e \<Rightarrow> Some (Inl e)
      | Inr key \<Rightarrow>
          (case fromObject n h item form (Some key) seen of
             None \<Rightarrow> None
           | Some (Inl e) \<Rightarrow> Some (Inl e)
           | Some (Inr (form', seen')) \<Rightarrow> forEach n h rest form' namespace seen'))"

section \<open>Notions the properties are stated with\<close>

text \<open>The leaf values of the encoder: a string, a number, a boolean, a
  \<^verbatim>\<open>Date\<close> or a \<^verbatim>\<open>Blob\<close> (a \<^verbatim>\<open>File\<close> or not).\<close>

fun leaf :: "heap \<Rightarrow> val \<Rightarrow> bool" where
  "leaf h (VBoolean b) = True"
| "leaf h (VNumber s) = True"
| "leaf h (VString s) = True"
| "leaf h (Ref a) =
     (case h a of DateObj d \<Rightarrow> True | BlobObj \<Rightarrow> True | FileObj \<Rightarrow> True | _ \<Rightarrow> False)"
| "leaf h v = False"

text \<open>The kind of a container, and the kind of the container a path of
  segments leads to from the root, each segment read as a property.\<close>

datatype kind = Sequence | Mapping

fun kind_of :: "jsval \<Rightarrow> kind option" where
  "kind_of (Obj ps) = Some Mapping"
| "kind_of (Arr es ps) = Some Sequence"
| "kind_of v = None"

fun resolve :: "jsval \<Rightarrow> string list \<Rightarrow> jsval option" where
  "resolve t [] = Some t"
| "resolve t (k # p) =
     (if is_container t then (case get t k of Value c \<Rightarrow> resolve c p | _ \<Rightarrow> None) else None)"

definition kind_at :: "jsval \<Rightarrow> string list \<Rightarrow> kind option" where
  "kind_at t p = (case resolve t p of Some c \<Rightarrow> kind_of c | None \<Rightarrow> None)"

text \<open>
  The objects of a value. An object is a child of another when the encoder,
  called on the other, calls itself on the object: an element of the array, a
  value of the \<^verbatim>\<open>Map\<close>, a member of the \<^verbatim>\<open>Set\<close>, the value of an own
  property. The objects of a value are the object it refers to and the
  descendants of that object. A value is cyclic when one of its objects is
  its own descendant, its dates are valid when none of its objects is an
  invalid \<^verbatim>\<open>Date\<close>, and its keys convert when every key of every
  \<^verbatim>\<open>Map\<close> among its objects converts to a string in a template literal
  (it is no \<^verbatim>\<open>Symbol\<close> and no object without a conversion to a primitive).
\<close>

definition edges :: "heap \<Rightarrow> (addr \<times> addr) set" where
  "edges h = {(a, b). Ref b \<in> snd ` set (children (h a))}"

definition objects :: "heap \<Rightarrow> val \<Rightarrow> addr set" where
  "objects h v = {b. \<exists>a. v = Ref a \<and> (a, b) \<in> (edges h)\<^sup>*}"

definition cyclic :: "heap \<Rightarrow> val \<Rightarrow> bool" where
  "cyclic h v = (\<exists>a \<in> objects h v. (a, a) \<in> (edges h)\<^sup>+)"

definition dates_valid :: "heap \<Rightarrow> val \<Rightarrow> bool" where
  "dates_valid h v = (\<forall>a \<in> objects h v. h a \<noteq> DateObj None)"

fun converts :: "mapkey \<Rightarrow> bool" where
  "converts (Key s) = True"
| "converts k = False"

definition keys_convert :: "heap \<Rightarrow> val \<Rightarrow> bool" where
  "keys_convert h v =
     (\<forall>a \<in> objects h v. \<forall>kvs. h a = MapObj kvs \<longrightarrow> list_all (\<lambda>p. converts (fst p)) kvs)"

text \<open>Two inputs of the encoder: an object whose two properties hold the
  same array, and an object that holds an array that holds the object.\<close>

definition shared :: heap where
  "shared = (\<lambda>a. BlobObj)(10 := PlainObj [(''a'', Ref 11), (''b'', Ref 11)],
                          11 := ArrayObj [Some (VString ''x'')])"

definition looped :: heap where
  "looped = (\<lambda>a. BlobObj)(10 := PlainObj [(''a'', VNumber ''1''), (''self'', Ref 11)],
                          11 := ArrayObj [Some (Ref 10)])"

section \<open>Notions of the round trip\<close>

text \<open>
  The structure of an input with every leaf as a string: the tree the
  decoder would have to return for the round trip to hold. It is defined for
  the inputs built only from plain objects, arrays (without holes) and
  strings, numbers and booleans.
\<close>

inductive "structure" :: "heap \<Rightarrow> val \<Rightarrow> jsval \<Rightarrow> bool" for h where
  of_string: "structure h (VString s) (Str s)"
| of_number: "structure h (VNumber s) (Str s)"
| of_boolean: "structure h (VBoolean b) (Str (String_boolean b))"
| of_object:
    "h a = PlainObj ps
     \<Longrightarrow> list_all2 (\<lambda>p q. fst p = fst q \<and> structure h (snd p) (snd q)) ps qs
     \<Longrightarrow> structure h (Ref a) (Obj qs)"
| of_array:
    "h a = ArrayObj es
     \<Longrightarrow> list_all2 (\<lambda>e q. \<exists>v t. e = Some v \<and> q = Some t \<and> structure h v t) es qs
     \<Longrightarrow> structure h (Ref a) (Arr qs [])"

text \<open>
  The trees the round trip is proved for. A property name is a usable
  segment when it is not empty, holds no bracket and is not
  \<^verbatim>\<open>__proto__\<close>. A property survives when its name is a usable segment and
  its value is a text under a name that is not inherited from
  \<^verbatim>\<open>Object.prototype\<close>, or a plain object under a name that is not all
  digits, which is not empty and whose properties, of distinct names, survive.
  The root is a plain object, empty or not, whose properties survive.
\<close>

definition segment_ok :: "string \<Rightarrow> bool" where
  "segment_ok k = (k \<noteq> [] \<and> list_all (\<lambda>c. \<not> bracket c) k \<and> k \<noteq> ''__proto__'')"

fun survives :: "string \<Rightarrow> jsval \<Rightarrow> bool" where
  "survives k (Str s) = (segment_ok k \<and> k \<notin> set object_prototype)"
| "survives k (Obj qs) =
     (segment_ok k \<and> \<not> all_digits k \<and> qs \<noteq> [] \<and> distinct (map fst qs)
      \<and> list_all (\<lambda>q. survives (fst q) (snd q)) qs)"
| "survives k v = False"

fun survives_root :: "jsval \<Rightarrow> bool" where
  "survives_root (Obj qs) = (distinct (map fst qs) \<and> list_all (\<lambda>q. survives (fst q) (snd q)) qs)"
| "survives_root v = False"

text \<open>The entries a tree of texts and plain objects is encoded to, below a
  namespace that is not empty.\<close>

fun flat :: "string \<Rightarrow> jsval \<Rightarrow> formdata" where
  "flat ns (Str s) = [(ns, Text s)]"
| "flat ns (Obj qs) = concat (map (\<lambda>q. flat (ns @ ''['' @ fst q @ '']'') (snd q)) qs)"
| "flat ns v = []"

text \<open>
  A tree of plain objects with one more property: at the end of the object
  that the path leads to, the objects of the path that are missing being
  created on the way. The path is clear for the property when every object
  it meets is a plain object and the last one, if the path gets there, has no
  property of that name yet.
\<close>

fun graft :: "jsval \<Rightarrow> string list \<Rightarrow> string \<Rightarrow> jsval \<Rightarrow> jsval" where
  "graft (Obj ps) [] k t = Obj (update k t ps)"
| "graft (Obj ps) (q # p) k t =
     Obj (update q (graft (case map_of ps q of Some c \<Rightarrow> c | None \<Rightarrow> Obj []) p k t) ps)"
| "graft v p k t = v"

fun clear :: "jsval \<Rightarrow> string list \<Rightarrow> string \<Rightarrow> bool" where
  "clear (Obj ps) [] k = (map_of ps k = None)"
| "clear (Obj ps) (q # p) k = (case map_of ps q of None \<Rightarrow> True | Some c \<Rightarrow> clear c p k)"
| "clear v p k = False"

text \<open>Three inputs of the round trip: \<^verbatim>\<open>{ user: { name: "Alice", age: 30 }, ok: true }\<close>,
  \<^verbatim>\<open>{ a: {} }\<close> and \<^verbatim>\<open>{ a: ["x"] }\<close>.\<close>

definition nested :: heap where
  "nested = (\<lambda>a. BlobObj)(10 := PlainObj [(''user'', Ref 11), (''ok'', VBoolean True)],
                          11 := PlainObj [(''name'', VString ''Alice''), (''age'', VNumber ''30'')])"

definition empty_inside :: heap where
  "empty_inside = (\<lambda>a. BlobObj)(10 := PlainObj [(''a'', Ref 11)], 11 := PlainObj [])"

definition array_inside :: heap where
  "array_inside = (\<lambda>a. BlobObj)(10 := PlainObj [(''a'', Ref 11)],
                                11 := ArrayObj [Some (VString ''x'')])"

section \<open>Evaluating the decoder\<close>

lemmas decoder_defs =
  toObject_def assignNestedValue_def segments_def bracket_def place_def descend_def
  missing_def fresh_def all_digits_def digit_def inherited_def object_prototype_def
  array_prototype_def array_index_def index_key_def parseInt_def white_def decimal_def
  digit_value_def show_int_def show_nat.simps digit_char_def set_element_def

text \<open>
  C3. The specification has it that a final empty segment that comes from a trailing \<^verbatim>\<open>[]\<close>
  is kept as the append sentinel, and decoding the single pair
  \<^verbatim>\<open>("items[]", "x")\<close> binds \<^verbatim>\<open>items\<close> to a sequence containing
  \<^verbatim>\<open>"x"\<close>. The code filters every empty piece out of the split key, the
  trailing one included, so the key \<^verbatim>\<open>items[]\<close> has the one segment
  \<^verbatim>\<open>items\<close>, and the pair binds \<^verbatim>\<open>items\<close> to the text \<^verbatim>\<open>"x"\<close>, not
  to a sequence. The branch \<^verbatim>\<open>lastKey === ''\<close> of the source, which would
  append, is never taken.
\<close>

theorem trailing_brackets_are_dropped:
  "split_brackets ''items[]'' = [''items'', []]
   \<and> segments ''items[]'' = [''items'']
   \<and> toObject [(''items[]'', Text ''x'')] = Inr (Obj [(''items'', Str ''x'')])"
  by (simp add: decoder_defs)

text \<open>
  C5. Decoding the pairs \<^verbatim>\<open>("items[]", "x")\<close>, \<^verbatim>\<open>("items[]", "y")\<close>
  yields \<^verbatim>\<open>{ items: ["x", "y"] }\<close>: the second pair finds \<^verbatim>\<open>items\<close>
  set and coalesces.
\<close>

theorem items_twice:
  "toObject [(''items[]'', Text ''x''), (''items[]'', Text ''y'')]
     = Inr (Obj [(''items'', Arr [Some (Str ''x''), Some (Str ''y'')] [])])"
  by (simp add: decoder_defs)

text \<open>
  C7. The specification has it that \<^verbatim>\<open>toObject\<close> raises for no input. The key
  \<^verbatim>\<open>0[length][x]\<close> makes it raise: the segment \<^verbatim>\<open>0\<close> is all digits, so
  the root gets an array there; on that array the segment \<^verbatim>\<open>length\<close> names
  the length, a number and not an object, so the loop assigns it the empty
  object, and the runtime raises \<^verbatim>\<open>RangeError\<close>.
\<close>

theorem length_segment_raises:
  "toObject [(''0[length][x]'', Text ''v'')] = Inl RangeError"
  by (simp add: decoder_defs)

text \<open>The rest of that sentence of the specification holds: a pair whose
  key is empty, or made of brackets only, leaves the tree as it is, and stray
  brackets only delimit segments.\<close>

lemma empty_key_is_ignored:
  "decode obj (([], v) # rest) = decode obj rest"
  by (simp add: segments_def assignNestedValue_def)

lemma brackets_only_key_is_ignored:
  "decode obj ((''[]'', v) # rest) = decode obj rest"
  by (simp add: segments_def assignNestedValue_def bracket_def)

lemma unbalanced_brackets:
  "segments ''a]b[[c'' = [''a'', ''b'', ''c'']"
  "toObject [(''a]b[[c'', Text ''v'')] = Inr (Obj [(''a'', Obj [(''b'', Obj [(''c'', Str ''v'')])])])"
  by (simp_all add: decoder_defs)

section \<open>The encoder: the set of objects in progress\<close>

text \<open>A call that returns leaves the set \<^verbatim>\<open>seen\<close> as it found it: every
  object added on entry is deleted on exit.\<close>

lemma seen_restored:
  "fromObject n h v form ns seen = Some (Inr (form', seen')) \<Longrightarrow> seen' = seen"
  "forEach n h items form ns seen = Some (Inr (form', seen')) \<Longrightarrow> seen' = seen"
proof (induction n h v form ns seen and n h items form ns seen arbitrary: form' seen' and form' seen'
       rule: fromObject_forEach.induct)
  case (4 n h a form namespace seen)
  then show ?case
    by (auto split: if_splits object.splits option.splits sum.splits)
next
  case (10 n h segment item rest form namespace seen)
  then show ?case
    by (fastforce split: option.splits sum.splits)
qed simp_all

text \<open>An object that is in \<^verbatim>\<open>seen\<close> is not read again: two heaps that
  agree on the objects outside \<^verbatim>\<open>seen\<close> give the same run.\<close>

lemma unseen_objects_only:
  "(\<forall>b. b \<notin> seen \<longrightarrow> h b = h' b) \<Longrightarrow>
     fromObject n h v form ns seen = fromObject n h' v form ns seen"
  "(\<forall>b. b \<notin> seen \<longrightarrow> h b = h' b) \<Longrightarrow>
     forEach n h items form ns seen = forEach n h' items form ns seen"
proof (induction n h v form ns seen and n h items form ns seen
       rule: fromObject_forEach.induct)
  case (4 n h a form namespace seen)
  show ?case
  proof (cases "a \<in> seen")
    case True
    then show ?thesis by simp
  next
    case False
    with 4(5) have eq: "h a = h' a" by simp
    have rest: "\<forall>b. b \<notin> insert a seen \<longrightarrow> h b = h' b" using 4(5) by simp
    show ?thesis
      using False eq[symmetric] 4(1-4)[OF False _ rest]
      by (cases "h a") simp_all
  qed
next
  case (10 n h segment item rest form namespace seen)
  show ?case
  proof (cases "formKey namespace segment")
    case (Inl e)
    then show ?thesis by simp
  next
    case key: (Inr key)
    have first: "fromObject n h item form (Some key) seen = fromObject n h' item form (Some key) seen"
      using 10(1)[OF key 10(3)] .
    show ?thesis
    proof (cases "fromObject n h item form (Some key) seen")
      case None
      then show ?thesis using first key by simp
    next
      case (Some r)
      show ?thesis
      proof (cases r)
        case (Inl e)
        then show ?thesis using Some first key by simp
      next
        case (Inr fs)
        obtain form' seen' where fs: "fs = (form', seen')" by (cases fs)
        have "seen' = seen" using Some Inr fs seen_restored(1) by blast
        then show ?thesis
          using Some Inr fs first key 10(2)[OF key Some Inr fs[symmetric]] 10(3) by simp
      qed
    qed
  qed
qed simp_all

section \<open>The encoder: absent values and top-level leaves\<close>

lemmas encoder_defs =
  name_def child_key_def properties_def String_boolean_def show_nat.simps digit_char_def

text \<open>
  C8. No entry is emitted for an absent value. Encoding \<^verbatim>\<open>null\<close> or
  \<^verbatim>\<open>undefined\<close> returns the form and the set \<^verbatim>\<open>seen\<close> as they were
  given, whatever the namespace. A property of a plain object whose value is
  \<^verbatim>\<open>undefined\<close> contributes nothing: the run on the object is the run on
  the same object without that property. And encoding
  \<^verbatim>\<open>{ a: 1, b: undefined }\<close> yields the one pair \<^verbatim>\<open>("a", "1")\<close>.
\<close>

theorem absent_values_emit_nothing:
  "fromObject (Suc n) h VNull form ns seen = Some (Inr (form, seen))
   \<and> fromObject (Suc n) h VUndefined form ns seen = Some (Inr (form, seen))
   \<and> fromObject n (h(a := PlainObj (ps @ (k, VUndefined) # qs))) (Ref a) form ns seen
       = fromObject n (h(a := PlainObj (ps @ qs))) (Ref a) form ns seen
   \<and> fromObject 2 (\<lambda>a. PlainObj [(''a'', VNumber ''1''), (''b'', VUndefined)]) (Ref 0) [] None {}
       = Some (Inr ([(''a'', Text ''1'')], {}))"
proof -
  let ?h1 = "h(a := PlainObj (ps @ (k, VUndefined) # qs))"
  let ?h2 = "h(a := PlainObj (ps @ qs))"
  have "fromObject n ?h1 (Ref a) form ns seen = fromObject n ?h2 (Ref a) form ns seen"
  proof (cases n)
    case 0
    then show ?thesis by simp
  next
    case (Suc m)
    have "forEach m ?h1 (properties (ps @ qs)) form ns (insert a seen)
        = forEach m ?h2 (properties (ps @ qs)) form ns (insert a seen)"
      by (rule unseen_objects_only(2)) simp
    then show ?thesis using Suc by (simp add: properties_def)
  qed
  moreover have "fromObject 2 (\<lambda>a. PlainObj [(''a'', VNumber ''1''), (''b'', VUndefined)]) (Ref 0) [] None {}
       = Some (Inr ([(''a'', Text ''1'')], {}))"
    by (simp add: numeral_2_eq_2 encoder_defs)
  ultimately show ?thesis by simp
qed

text \<open>
  C10, as amended. Called at top level (no namespace, a fresh set
  \<^verbatim>\<open>seen\<close>) on a leaf value that is not an invalid \<^verbatim>\<open>Date\<close>, the
  encoder appends exactly one entry to the form it was given, and the key of
  that entry is the string \<^verbatim>\<open>undefined\<close>.
\<close>

theorem top_level_leaf:
  "leaf h v \<Longrightarrow> (\<forall>a. v = Ref a \<longrightarrow> h a \<noteq> DateObj None) \<Longrightarrow>
     \<exists>e. fromObject (Suc n) h v form None {} = Some (Inr (form @ [(''undefined'', e)], {}))"
  by (cases v) (auto simp: name_def split: object.splits option.splits)

theorem top_level_leaf_witness:
  "fromObject 1 (\<lambda>a. BlobObj) (VNumber ''7'') [(''k'', Text ''v'')] None {}
    = Some (Inr ([(''k'', Text ''v''), (''undefined'', Text ''7'')], {}))
  \<and> fromObject 1 (\<lambda>a. BlobObj) (Ref 3) [] None {}
    = Some (Inr ([(''undefined'', File (Made 3))], {}))
  \<and> fromObject 1 (\<lambda>a. FileObj) (Ref 3) [] None {}
    = Some (Inr ([(''undefined'', File (Given 3))], {}))"
  using top_level_leaf[of "\<lambda>a. BlobObj" "VNumber ''7''" 0 "[(''k'', Text ''v'')]"]
        top_level_leaf[of "\<lambda>a. BlobObj" "Ref 3" 0 "[]"]
        top_level_leaf[of "\<lambda>a. FileObj" "Ref 3" 0 "[]"]
  by (simp add: name_def)

text \<open>
  C10, as stated, fails on a \<^verbatim>\<open>Date\<close> that is invalid (such as
  \<^verbatim>\<open>new Date(NaN)\<close>): it is a leaf, and \<^verbatim>\<open>toISOString()\<close> raises
  \<^verbatim>\<open>RangeError\<close> on it, so the call raises and appends nothing.
\<close>

theorem invalid_date_raises:
  "leaf (\<lambda>a. DateObj None) (Ref 0)
   \<and> fromObject 1 (\<lambda>a. DateObj None) (Ref 0) [] None {} = Some (Inl RangeError)"
  by simp

section \<open>The decoder: reading back what was written\<close>

lemma map_of_update: "map_of (update k v ps) k' = (if k' = k then Some v else map_of ps k')"
  by (induction ps) auto

lemma nth_set_element: "set_element es n v ! n = Some v \<and> n < length (set_element es n v)"
  by (simp add: set_element_def nth_append)

text \<open>An assignment that returns is read back by the same key.\<close>

lemma get_put:
  assumes "put c k x = Inr c'"
  shows "get c' k = Value x"
proof (cases c)
  case (Obj ps)
  then show ?thesis using assms by (auto simp: map_of_update split: if_splits)
next
  case (Arr es ps)
  then show ?thesis using assms
    by (auto simp: map_of_update nth_set_element split: if_splits option.splits)
qed (use assms in auto)

text \<open>The decimal numeral of an array index is the key itself, so two keys
  that are the same array index are the same key.\<close>

lemma digit_char_value: "digit c \<Longrightarrow> digit_char (digit_value c) = c \<and> digit_value c < 10"
  by (auto simp: digit_def digit_char_def digit_value_def)

lemma decimal_snoc: "decimal (ds @ [c]) = 10 * decimal ds + digit_value c"
  by (simp add: decimal_def)

lemma decimal_positive:
  "ds \<noteq> [] \<Longrightarrow> list_all digit ds \<Longrightarrow> hd ds \<noteq> CHR ''0'' \<Longrightarrow> 0 < decimal ds"
proof (induction ds rule: rev_induct)
  case Nil
  then show ?case by simp
next
  case (snoc c ds)
  show ?case
  proof (cases "ds = []")
    case True
    then have "digit c" "c \<noteq> CHR ''0''" using snoc.prems by auto
    then have "0 < digit_value c" by (auto simp: digit_def digit_value_def)
    then show ?thesis using True by (simp add: decimal_def)
  next
    case False
    then have "0 < decimal ds" using snoc by auto
    then show ?thesis by (simp add: decimal_snoc)
  qed
qed

lemma show_nat_decimal:
  "list_all digit ds \<Longrightarrow> ds \<noteq> [] \<Longrightarrow> ds = ''0'' \<or> hd ds \<noteq> CHR ''0''
     \<Longrightarrow> show_nat (decimal ds) = ds"
proof (induction ds rule: rev_induct)
  case Nil
  then show ?case by simp
next
  case (snoc c ds)
  have c: "digit c" using snoc.prems by simp
  show ?case
  proof (cases "ds = []")
    case True
    then show ?thesis using digit_char_value[OF c]
      by (simp add: decimal_def show_nat.simps)
  next
    case False
    then have h: "hd ds \<noteq> CHR ''0''" and d: "list_all digit ds" using snoc.prems by auto
    have pos: "0 < decimal ds" using decimal_positive[OF False d h] .
    have "show_nat (decimal ds) = ds" using snoc.IH d False h by simp
    then show ?thesis using pos digit_char_value[OF c]
      by (subst show_nat.simps) (simp add: decimal_snoc)
  qed
qed

lemma array_index_inj:
  assumes "array_index k = Some n" and "array_index k' = Some n"
  shows "k = k'"
proof -
  have "show_nat (decimal k) = k" "decimal k = n"
    using assms(1) by (auto simp: array_index_def all_digits_def intro!: show_nat_decimal split: if_splits)
  moreover have "show_nat (decimal k') = k'" "decimal k' = n"
    using assms(2) by (auto simp: array_index_def all_digits_def intro!: show_nat_decimal split: if_splits)
  ultimately show ?thesis by simp
qed

lemma get_set_element_other:
  "m \<noteq> n \<Longrightarrow>
     (if m < length (set_element es n v)
      then (case set_element es n v ! m of Some x \<Rightarrow> Value x | None \<Rightarrow> Undefined)
      else Undefined)
   = (if m < length es
      then (case es ! m of Some x \<Rightarrow> Value x | None \<Rightarrow> Undefined)
      else Undefined)"
  by (auto simp: set_element_def nth_append)

text \<open>An assignment that returns changes no other slot, the length of an array apart.\<close>

lemma get_put_other:
  assumes "put c k x = Inr c'" and "k' \<noteq> k" and "\<not> (isArray c \<and> k' = ''length'')"
  shows "get c' k' = get c k'"
proof (cases c)
  case (Obj ps)
  then have c': "c' = Obj (update k x ps)"
    using assms(1) by (simp split: if_splits)
  show ?thesis unfolding c' Obj using assms(2) by (simp add: map_of_update)
next
  case (Arr es ps)
  show ?thesis
  proof (cases "array_index k")
    case None
    then have c': "c' = Arr es (update k x ps)"
      using Arr assms(1) by (simp split: if_splits)
    have m: "map_of (update k x ps) k' = map_of ps k'"
      using assms(2) by (simp add: map_of_update)
    show ?thesis unfolding c' Arr by (cases "array_index k'") (simp_all add: m)
  next
    case (Some n)
    then have c': "c' = Arr (set_element es n x) ps" using Arr assms(1) by simp
    show ?thesis
    proof (cases "array_index k'")
      case None
      then show ?thesis using c' Arr assms(3) by simp
    next
      case m: (Some m)
      then have "m \<noteq> n" using Some assms(2) array_index_inj by blast
      then show ?thesis using c' Arr m get_set_element_other[of m n es x] by simp
    qed
  qed
qed (use assms in auto)

lemma length_set_element: "length (set_element es n v) = max (length es) (Suc n)"
  by (auto simp: set_element_def)

text \<open>Only a container can be assigned to, and it stays the container it
  was: no assignment, push or placement turns a plain object into an array or
  an array into a plain object.\<close>

lemma put_kind:
  assumes "put c k x = Inr c'"
  shows "kind_of c' = kind_of c \<and> is_container c \<and> is_container c'"
  using assms by (cases c) (auto split: if_splits option.splits)

lemma push_kind:
  assumes "push c x = Inr c'"
  shows "kind_of c' = kind_of c \<and> is_container c'"
  using assms by (cases c) (auto split: if_splits)

lemma place_kind:
  assumes "place c k x = Inr c'"
  shows "kind_of c' = kind_of c \<and> is_container c'"
  using assms
  by (auto simp: place_def dest: put_kind push_kind
           split: if_splits option.splits lookup.splits sum.splits)

text \<open>One round of the loop that returns: the container it leaves is of the
  kind it found, the slot of the segment holds the object the next round
  starts from, and an object that was in the slot is that object, with
  nothing changed.\<close>

lemma descend_result:
  assumes "descend c k = Inr (c', child)"
  shows "kind_of c' = kind_of c" and "is_container c" and "is_container c'"
    and "typeof_object (Value child)" and "get c' k = Value child"
    and "\<And>x. get c k = Value x \<Longrightarrow> typeof_object (Value x) \<Longrightarrow> c' = c \<and> child = x"
proof -
  let ?r = "if missing c k then put c k (fresh k) else Inr c"
  have cont: "is_container c"
    using assms by (auto simp: descend_def split: if_splits)
  from assms cont obtain c1 where r: "?r = Inr c1"
    by (cases ?r) (auto simp: descend_def)
  with assms cont have g: "get c1 k = Value child \<and> c' = c1"
    by (auto simp: descend_def split: lookup.splits)
  show "kind_of c' = kind_of c" using r g put_kind by (auto split: if_splits)
  show "is_container c" by (rule cont)
  show "is_container c'" using r g put_kind cont by (auto split: if_splits)
  show "typeof_object (Value child)"
  proof (cases "missing c k")
    case True
    then have "get c1 k = Value (fresh k)" using r get_put by simp
    then show ?thesis using g by (auto simp: fresh_def)
  next
    case False
    then show ?thesis using r g by (auto simp: missing_def)
  qed
  show "get c' k = Value child" using g by simp
  show "c' = c \<and> child = x" if "get c k = Value x" "typeof_object (Value x)" for x
  proof -
    have "typeof_object (Value c)" using cont by (cases c) auto
    then have "\<not> missing c k" using that by (simp add: missing_def)
    then show ?thesis using r g that by auto
  qed
qed

lemma walk_kind:
  "walk c ks k x = Inr c' \<Longrightarrow> kind_of c' = kind_of c \<and> is_container c'"
proof (induction ks arbitrary: c c')
  case Nil
  then show ?case using place_kind by simp
next
  case (Cons key keys)
  from Cons.prems obtain c1 child child' where
    d: "descend c key = Inr (c1, child)" and w: "walk child keys k x = Inr child'"
    and p: "put c1 key child' = Inr c'"
    by (auto split: sum.splits prod.splits)
  show ?case using descend_result(1)[OF d] put_kind[OF p] by simp
qed

lemma walk_keeps_kinds:
  "walk t ks k x = Inr t' \<Longrightarrow> i \<le> length ks \<Longrightarrow> kind_at t (take i ks) = Some K
     \<Longrightarrow> kind_at t' (take i ks) = Some K"
proof (induction ks arbitrary: t t' i)
  case Nil
  then show ?case using walk_kind[of t "[]" k x t'] by (simp add: kind_at_def)
next
  case (Cons key keys)
  show ?case
  proof (cases i)
    case 0
    then show ?thesis
      using Cons.prems walk_kind[of t "key # keys" k x t'] by (simp add: kind_at_def)
  next
    case (Suc j)
    from Cons.prems(1) obtain c1 child child' where
      d: "descend t key = Inr (c1, child)" and w: "walk child keys k x = Inr child'"
      and p: "put c1 key child' = Inr t'"
      by (auto split: sum.splits prod.splits)
    from Cons.prems(3) Suc obtain c where
      c: "get t key = Value c" and kc: "kind_at c (take j keys) = Some K"
      by (auto simp: kind_at_def split: if_splits lookup.splits)
    have "is_container c"
    proof (cases "take j keys")
      case Nil
      then show ?thesis using kc by (cases c) (auto simp: kind_at_def)
    next
      case (Cons a list)
      then show ?thesis using kc by (auto simp: kind_at_def split: if_splits)
    qed
    then have "typeof_object (Value c)" by (cases c) auto
    then have same: "c1 = t \<and> child = c" using descend_result(6)[OF d c] by simp
    have j: "j \<le> length keys" using Cons.prems(2) Suc by simp
    have "kind_at child' (take j keys) = Some K"
      using Cons.IH[OF w j] kc same by simp
    moreover have "get t' key = Value child'" using get_put[OF p] .
    moreover have "is_container t'" using put_kind[OF p] by simp
    ultimately show ?thesis using Suc by (simp add: kind_at_def)
  qed
qed

section \<open>The decoder: coalescing, container kinds\<close>

text \<open>
  C4, as amended. When the value is placed at a final segment on a mapping
  where that key (any key but \<^verbatim>\<open>__proto__\<close>) is already set: if the
  existing value is a sequence shorter than the largest array, \<open>2^32 - 1\<close>
  elements, the key then holds that sequence with the new value appended; if
  the existing value is not a sequence, the key then holds the two-element
  sequence of the old value, then the new value. The mapping is a mapping
  still and no other key of it has changed. And decoding
  \<^verbatim>\<open>("tag", "a")\<close>, \<^verbatim>\<open>("tag", "b")\<close> yields
  \<^verbatim>\<open>{ tag: ["a", "b"] }\<close>.
\<close>

theorem set_key_coalesces:
  "(get (Obj ps) k = Value old \<and> k \<noteq> [] \<and> (\<forall>es qs. old = Arr es qs \<longrightarrow> length es < 4294967295) \<longrightarrow>
      (\<exists>t. place (Obj ps) k v = Inr t
         \<and> kind_of t = Some Mapping
         \<and> get t k = Value (case old of Arr es qs \<Rightarrow> Arr (es @ [Some v]) qs
                                      | _ \<Rightarrow> Arr [Some old, Some v] [])
         \<and> (\<forall>k'. k' \<noteq> k \<longrightarrow> get t k' = get (Obj ps) k')))
   \<and> toObject [(''tag'', Text ''a''), (''tag'', Text ''b'')]
       = Inr (Obj [(''tag'', Arr [Some (Str ''a''), Some (Str ''b'')] [])])"
proof -
  have "\<exists>t. place (Obj ps) k v = Inr t
         \<and> kind_of t = Some Mapping
         \<and> get t k = Value (case old of Arr es qs \<Rightarrow> Arr (es @ [Some v]) qs
                                      | _ \<Rightarrow> Arr [Some old, Some v] [])
         \<and> (\<forall>k'. k' \<noteq> k \<longrightarrow> get t k' = get (Obj ps) k')"
    if g: "get (Obj ps) k = Value old" and k: "k \<noteq> []"
      and short: "\<forall>es qs. old = Arr es qs \<longrightarrow> length es < 4294967295"
  proof -
    have p: "k \<noteq> ''__proto__''" using g by (auto split: if_splits)
    show ?thesis
    proof (cases old)
      case (Arr es qs)
      then have "place (Obj ps) k v = Inr (Obj (update k (Arr (es @ [Some v]) qs) ps))"
        using g k p short by (simp add: place_def)
      then show ?thesis using Arr p by (simp add: map_of_update)
    next
      case (Str s)
      then have "place (Obj ps) k v = Inr (Obj (update k (Arr [Some old, Some v] []) ps))"
        using g k p by (simp add: place_def)
      then show ?thesis using Str p by (simp add: map_of_update)
    next
      case (Blob b)
      then have "place (Obj ps) k v = Inr (Obj (update k (Arr [Some old, Some v] []) ps))"
        using g k p by (simp add: place_def)
      then show ?thesis using Blob p by (simp add: map_of_update)
    next
      case (Fn f)
      then have "place (Obj ps) k v = Inr (Obj (update k (Arr [Some old, Some v] []) ps))"
        using g k p by (simp add: place_def)
      then show ?thesis using Fn p by (simp add: map_of_update)
    next
      case (Obj qs)
      then have "place (Obj ps) k v = Inr (Obj (update k (Arr [Some old, Some v] []) ps))"
        using g k p by (simp add: place_def)
      then show ?thesis using Obj p by (simp add: map_of_update)
    qed
  qed
  moreover have "toObject [(''tag'', Text ''a''), (''tag'', Text ''b'')]
       = Inr (Obj [(''tag'', Arr [Some (Str ''a''), Some (Str ''b'')] [])])"
    by (simp add: decoder_defs)
  ultimately show ?thesis by blast
qed

theorem set_key_coalesces_witness:
  "(\<exists>t. place (Obj [(''tag'', Str ''a'')]) ''tag'' (Str ''b'') = Inr t
        \<and> get t ''tag'' = Value (Arr [Some (Str ''a''), Some (Str ''b'')] []))
   \<and> (\<exists>t. place (Obj [(''tag'', Arr [Some (Str ''a''), Some (Str ''b'')] [])]) ''tag'' (Str ''c'') = Inr t
        \<and> get t ''tag'' = Value (Arr [Some (Str ''a''), Some (Str ''b''), Some (Str ''c'')] []))"
  using set_key_coalesces[of "[(''tag'', Str ''a'')]" "''tag''" "Str ''a''" "Str ''b''"]
        set_key_coalesces[of "[(''tag'', Arr [Some (Str ''a''), Some (Str ''b'')] [])]" "''tag''"
           "Arr [Some (Str ''a''), Some (Str ''b'')] []" "Str ''c''"]
  by auto

text \<open>
  C4, as stated, fails where the existing value is a sequence of the largest
  length: \<^verbatim>\<open>("0[4294967294]", "v")\<close> binds \<^verbatim>\<open>0\<close> to a sequence of
  \<open>2^32 - 1\<close> elements, all holes but the last, and for the later pair
  \<^verbatim>\<open>("0", "w")\<close> the key is set to a sequence, \<^verbatim>\<open>push\<close> cannot append
  to it and the runtime raises \<^verbatim>\<open>RangeError\<close>.
\<close>

theorem longest_sequence_cannot_grow:
  "toObject [(''0[4294967294]'', Text ''v'')]
     = Inr (Obj [(''0'', Arr (set_element [] 4294967294 (Str ''v'')) [])])
   \<and> length (set_element [] 4294967294 (Str ''v'')) = 4294967295
   \<and> toObject [(''0[4294967294]'', Text ''v''), (''0'', Text ''w'')] = Inl RangeError"
proof -
  have i: "index_key ''4294967294'' = Some ''4294967294''"
    by (simp add: decoder_defs)
  have a: "array_index ''4294967294'' = Some 4294967294"
    by (simp add: decoder_defs)
  have s: "segments ''0[4294967294]'' = [''0'', ''4294967294'']" "segments ''0'' = [''0'']"
    by (simp_all add: segments_def bracket_def)
  have first: "assignNestedValue (Obj []) [''0'', ''4294967294''] (Str ''v'')
      = Inr (Obj [(''0'', Arr (set_element [] 4294967294 (Str ''v'')) [])])"
    using i a
    by (simp add: assignNestedValue_def descend_def missing_def fresh_def all_digits_def digit_def
          inherited_def object_prototype_def place_def)
  have second: "assignNestedValue (Obj [(''0'', Arr (set_element [] 4294967294 (Str ''v'')) [])])
       [''0''] (Str ''w'') = Inl RangeError"
    by (simp add: assignNestedValue_def place_def length_set_element)
  show ?thesis using first second s by (simp add: toObject_def length_set_element)
qed

text \<open>
  C6, as amended. While the segments of a key before the last are walked, a
  container that stands at a prefix of those segments is never replaced: a
  sequence there is a sequence after the pair is processed, and a mapping is a
  mapping. (What the placement at the last segment does to the slot it writes
  is not covered: there a mapping can be replaced.)
\<close>

theorem walked_containers_keep_their_kind:
  assumes a: "assignNestedValue t keys v = Inr t'" and i: "i < length keys"
    and k: "kind_at t (take i keys) = Some K"
  shows "kind_at t' (take i keys) = Some K"
proof (cases "keys = [] \<or> last keys = []")
  case True
  then show ?thesis using a k by (auto simp: assignNestedValue_def)
next
  case False
  have w: "walk t (butlast keys) (last keys) v = Inr t'"
    using a False by (simp add: assignNestedValue_def)
  have t: "take i keys = take i (butlast keys)" using i by (simp add: take_butlast)
  have "i \<le> length (butlast keys)" using i by simp
  from walk_keeps_kinds[OF w this] k t show ?thesis by simp
qed

theorem walked_containers_keep_their_kind_witness:
  "assignNestedValue (Obj [(''a'', Obj [(''b'', Str ''1'')])]) [''a'', ''c''] (Str ''2'')
     = Inr (Obj [(''a'', Obj [(''b'', Str ''1''), (''c'', Str ''2'')])])
   \<and> kind_at (Obj [(''a'', Obj [(''b'', Str ''1'')])]) [''a''] = Some Mapping
   \<and> kind_at (Obj [(''a'', Obj [(''b'', Str ''1''), (''c'', Str ''2'')])]) [''a''] = Some Mapping"
proof -
  have a: "assignNestedValue (Obj [(''a'', Obj [(''b'', Str ''1'')])]) [''a'', ''c''] (Str ''2'')
     = Inr (Obj [(''a'', Obj [(''b'', Str ''1''), (''c'', Str ''2'')])])"
    by (simp add: decoder_defs)
  have k: "kind_at (Obj [(''a'', Obj [(''b'', Str ''1'')])]) (take 1 [''a'', ''c'']) = Some Mapping"
    by (simp add: kind_at_def)
  have "kind_at (Obj [(''a'', Obj [(''b'', Str ''1''), (''c'', Str ''2'')])]) (take 1 [''a'', ''c''])
          = Some Mapping"
    by (rule walked_containers_keep_their_kind[OF a _ k]) simp
  then show ?thesis using a k by simp
qed

text \<open>
  C6, as stated, fails: after \<^verbatim>\<open>("a[b]", "1")\<close> the prefix \<^verbatim>\<open>a\<close> is a
  mapping; the later pair \<^verbatim>\<open>("a", "2")\<close> finds the key \<^verbatim>\<open>a\<close> set to a
  value that is not a sequence and coalesces, and the prefix \<^verbatim>\<open>a\<close> is now
  the sequence of the old mapping and \<^verbatim>\<open>"2"\<close>.
\<close>

theorem mapping_becomes_sequence:
  "toObject [(''a[b]'', Text ''1'')] = Inr (Obj [(''a'', Obj [(''b'', Str ''1'')])])
   \<and> kind_at (Obj [(''a'', Obj [(''b'', Str ''1'')])]) [''a''] = Some Mapping
   \<and> toObject [(''a[b]'', Text ''1''), (''a'', Text ''2'')]
       = Inr (Obj [(''a'', Arr [Some (Obj [(''b'', Str ''1'')]), Some (Str ''2'')] [])])
   \<and> kind_at (Obj [(''a'', Arr [Some (Obj [(''b'', Str ''1'')]), Some (Str ''2'')] [])]) [''a'']
       = Some Sequence"
  by (simp add: decoder_defs kind_at_def)

text \<open>
  C9, as amended. In a round of the loop over the intermediate segments, on a
  container:
  \<^item> when the slot for the segment is unset or holds a value that is not an
    object (a text, a function), and unless the segment is \<^verbatim>\<open>length\<close> on a
    sequence, the round returns, the slot then holds a new empty container,
    the next round starts from it, and its kind follows from the segment
    alone: a sequence if the segment is all digits, a mapping otherwise; the
    container walked is of the kind it was and its other slots are unchanged
    (the length of a sequence apart);
  \<^item> when the slot holds an object (a mapping, a sequence or a \<^verbatim>\<open>File\<close>),
    nothing is created or changed, and the next round starts from that
    object.
\<close>

theorem container_by_syntax:
  assumes "is_container current"
  shows "(\<not> typeof_object (get current key) \<and> \<not> (isArray current \<and> key = ''length'') \<longrightarrow>
            (\<exists>current'. descend current key = Inr (current', if all_digits key then Arr [] [] else Obj [])
               \<and> get current' key = Value (if all_digits key then Arr [] [] else Obj [])
               \<and> kind_of (if all_digits key then Arr [] [] else Obj [])
                   = Some (if all_digits key then Sequence else Mapping)
               \<and> kind_of current' = kind_of current
               \<and> (\<forall>k. k \<noteq> key \<and> \<not> (isArray current \<and> k = ''length'')
                      \<longrightarrow> get current' k = get current k)))
       \<and> (\<forall>c. get current key = Value c \<and> typeof_object (Value c)
              \<longrightarrow> descend current key = Inr (current, c))"
proof -
  have new: "\<exists>current'. descend current key = Inr (current', if all_digits key then Arr [] [] else Obj [])
               \<and> get current' key = Value (if all_digits key then Arr [] [] else Obj [])
               \<and> kind_of (if all_digits key then Arr [] [] else Obj [])
                   = Some (if all_digits key then Sequence else Mapping)
               \<and> kind_of current' = kind_of current
               \<and> (\<forall>k. k \<noteq> key \<and> \<not> (isArray current \<and> k = ''length'')
                      \<longrightarrow> get current' k = get current k)"
    if no: "\<not> typeof_object (get current key)" and len: "\<not> (isArray current \<and> key = ''length'')"
  proof -
    have m: "missing current key" using no by (simp add: missing_def)
    have "\<exists>c'. put current key (fresh key) = Inr c'"
    proof (cases current)
      case (Obj ps)
      then show ?thesis using no by auto
    next
      case (Arr es ps)
      then show ?thesis using no len by (auto split: option.splits)
    qed (use assms in auto)
    then obtain c' where p: "put current key (fresh key) = Inr c'" ..
    have g: "get c' key = Value (fresh key)" using get_put[OF p] .
    have d: "descend current key = Inr (c', fresh key)"
      using m p g assms by (simp add: descend_def)
    have k: "kind_of c' = kind_of current" using put_kind[OF p] by simp
    have o: "\<forall>k. k \<noteq> key \<and> \<not> (isArray current \<and> k = ''length'') \<longrightarrow> get c' k = get current k"
      using get_put_other[OF p] by blast
    show ?thesis using d g k o by (auto simp: fresh_def)
  qed
  have old: "descend current key = Inr (current, c)"
    if "get current key = Value c" "typeof_object (Value c)" for c
  proof -
    have "typeof_object (Value current)" using assms by (cases current) auto
    then have "\<not> missing current key" using that by (simp add: missing_def)
    then show ?thesis using that assms by (simp add: descend_def)
  qed
  show ?thesis using new old by blast
qed

theorem container_by_syntax_witness:
  "(\<exists>current'. descend (Obj [(''a'', Str ''x'')]) ''0'' = Inr (current', Arr [] [])
        \<and> get current' ''0'' = Value (Arr [] []) \<and> get current' ''a'' = Value (Str ''x''))
   \<and> (\<exists>current'. descend (Obj [(''a'', Str ''x'')]) ''a'' = Inr (current', Obj [])
        \<and> get current' ''a'' = Value (Obj []))
   \<and> descend (Obj [(''a'', Obj [(''b'', Str ''x'')])]) ''a''
       = Inr (Obj [(''a'', Obj [(''b'', Str ''x'')])], Obj [(''b'', Str ''x'')])
   \<and> descend (Obj [(''f'', Blob (Given 0))]) ''f'' = Inr (Obj [(''f'', Blob (Given 0))], Blob (Given 0))"
  using container_by_syntax[of "Obj [(''a'', Str ''x'')]" "''0''"]
        container_by_syntax[of "Obj [(''a'', Str ''x'')]" "''a''"]
        container_by_syntax[of "Obj [(''a'', Obj [(''b'', Str ''x'')])]" "''a''"]
        container_by_syntax[of "Obj [(''f'', Blob (Given 0))]" "''f''"]
  by (simp add: decoder_defs)

text \<open>
  C9, as stated, fails where the slot holds something that is not a container
  and yet no container is created. On a sequence the slot \<^verbatim>\<open>length\<close> holds
  a number: the round assigns the empty object to it and the runtime raises.
  And a slot that holds a \<^verbatim>\<open>File\<close> passes the test
  \<^verbatim>\<open>typeof current[key] !== 'object'\<close>: the round keeps the file and the
  next round starts from it.
\<close>

theorem no_container_created:
  "is_container (Arr [] []) \<and> get (Arr [] []) ''length'' = Length 0
   \<and> descend (Arr [] []) ''length'' = Inl RangeError
   \<and> get (Obj [(''f'', Blob (Given 0))]) ''f'' = Value (Blob (Given 0))
   \<and> \<not> is_container (Blob (Given 0))
   \<and> descend (Obj [(''f'', Blob (Given 0))]) ''f''
       = Inr (Obj [(''f'', Blob (Given 0))], Blob (Given 0))"
  by (simp add: decoder_defs)

section \<open>The encoder: cycles\<close>

lemma objects_simple [simp]:
  "objects h VUndefined = {}" "objects h VNull = {}" "objects h (VBoolean b) = {}"
  "objects h (VNumber s) = {}" "objects h (VString s) = {}" "objects h VOther = {}"
  by (simp_all add: objects_def)

lemma objects_Ref: "objects h (Ref a) = {b. (a, b) \<in> (edges h)\<^sup>*}"
  by (simp add: objects_def)

lemma objects_unfold:
  "objects h (Ref a) = insert a (\<Union>p \<in> set (children (h a)). objects h (snd p))"
proof (rule set_eqI, rule iffI)
  fix b assume "b \<in> objects h (Ref a)"
  then have "(a, b) \<in> (edges h)\<^sup>*" by (simp add: objects_Ref)
  then show "b \<in> insert a (\<Union>p \<in> set (children (h a)). objects h (snd p))"
  proof (cases rule: converse_rtranclE)
    case base
    then show ?thesis by simp
  next
    case (step a')
    then obtain p where "p \<in> set (children (h a))" "snd p = Ref a'"
      by (auto simp: edges_def)
    then have "b \<in> objects h (snd p)" using step(2) by (simp add: objects_Ref)
    then show ?thesis using \<open>p \<in> set (children (h a))\<close> by blast
  qed
next
  fix b assume b: "b \<in> insert a (\<Union>p \<in> set (children (h a)). objects h (snd p))"
  show "b \<in> objects h (Ref a)"
  proof (cases "b = a")
    case True
    then show ?thesis by (simp add: objects_Ref)
  next
    case False
    with b obtain p where p: "p \<in> set (children (h a))" "b \<in> objects h (snd p)" by auto
    then obtain a' where a': "snd p = Ref a'" "(a', b) \<in> (edges h)\<^sup>*"
      by (auto simp: objects_def)
    have "(a, a') \<in> edges h" using p(1) a'(1) by (force simp: edges_def)
    then show ?thesis using a'(2) by (auto simp: objects_Ref)
  qed
qed

lemma own_descendant:
  "(a, a) \<in> (edges h)\<^sup>+ \<longleftrightarrow> (\<exists>p \<in> set (children (h a)). a \<in> objects h (snd p))"
proof
  assume "(a, a) \<in> (edges h)\<^sup>+"
  then obtain a' where "(a, a') \<in> edges h" "(a', a) \<in> (edges h)\<^sup>*"
    by (auto dest: tranclD)
  then show "\<exists>p \<in> set (children (h a)). a \<in> objects h (snd p)"
    by (force simp: edges_def objects_Ref)
next
  assume "\<exists>p \<in> set (children (h a)). a \<in> objects h (snd p)"
  then obtain p a' where "p \<in> set (children (h a))" "snd p = Ref a'" "(a', a) \<in> (edges h)\<^sup>*"
    by (auto simp: objects_def)
  then have "(a, a') \<in> edges h" by (force simp: edges_def)
  then show "(a, a) \<in> (edges h)\<^sup>+" using \<open>(a', a) \<in> (edges h)\<^sup>*\<close> by auto
qed

text \<open>The call on an object that is not in progress, by the loop over its children.\<close>

lemma fromObject_Ref:
  assumes "a \<notin> seen"
  shows "fromObject (Suc n) h (Ref a) form ns seen =
     (case h a of
        DateObj None \<Rightarrow> Some (Inl RangeError)
      | DateObj (Some s) \<Rightarrow> Some (Inr (form @ [(name ns, Text s)], seen))
      | BlobObj \<Rightarrow> Some (Inr (form @ [(name ns, File (Made a))], seen))
      | FileObj \<Rightarrow> Some (Inr (form @ [(name ns, File (Given a))], seen))
      | _ \<Rightarrow> (case forEach n h (children (h a)) form ns (insert a seen) of
                None \<Rightarrow> None
              | Some (Inl e) \<Rightarrow> Some (Inl e)
              | Some (Inr (form', seen')) \<Rightarrow> Some (Inr (form', seen' - {a}))))"
  using assms by (cases "h a") (auto split: option.splits)

text \<open>The conversion of a segment raises \<^verbatim>\<open>TypeError\<close> only, and only
  on a key that does not convert; the segments of an array, a \<^verbatim>\<open>Set\<close>
  and a plain object convert.\<close>

lemma formKey_error: "formKey ns k = Inl e \<Longrightarrow> e = TypeError \<and> \<not> converts k"
  by (cases k) (auto split: if_splits)

lemma formKey_converts: "converts k \<Longrightarrow> \<exists>key. formKey ns k = Inr key"
  by (cases k) auto

lemma indexed_convert: "list_all (\<lambda>p. converts (fst p)) (indexed i es)"
  by (induction i es rule: indexed.induct) simp_all

lemma children_convert:
  assumes "\<forall>kvs. h a = MapObj kvs \<longrightarrow> list_all (\<lambda>p. converts (fst p)) kvs"
  shows "list_all (\<lambda>p. converts (fst p)) (children (h a))"
  using assms indexed_convert[unfolded list_all_iff]
  by (cases "h a") (auto simp: properties_def list_all_iff)

subsection \<open>The cyclic-reference error is raised at a cycle only\<close>

lemma cyclic_error_forEach:
  assumes P: "\<And>v form ns seen. fromObject n h v form ns seen = Some (Inl CyclicReference)
                \<Longrightarrow> \<exists>b \<in> objects h v. b \<in> seen \<or> (b, b) \<in> (edges h)\<^sup>+"
    and "forEach n h items form ns seen = Some (Inl CyclicReference)"
  shows "\<exists>p \<in> set items. \<exists>b \<in> objects h (snd p). b \<in> seen \<or> (b, b) \<in> (edges h)\<^sup>+"
  using assms(2)
proof (induction items arbitrary: form seen)
  case Nil
  then show ?case by simp
next
  case (Cons p items)
  obtain segment item where p: "p = (segment, item)" by (cases p)
  show ?case
  proof (cases "formKey ns segment")
    case (Inl e)
    then show ?thesis using Cons.prems p formKey_error[OF Inl] by simp
  next
    case key: (Inr key)
    show ?thesis
    proof (cases "fromObject n h item form (Some key) seen")
      case None
      then show ?thesis using Cons.prems p key by simp
    next
      case (Some r)
      show ?thesis
      proof (cases r)
        case (Inl e)
        then have "fromObject n h item form (Some key) seen = Some (Inl CyclicReference)"
          using Some Cons.prems p key by simp
        from P[OF this] show ?thesis using p by auto
      next
        case (Inr fs)
        obtain form' seen' where fs: "fs = (form', seen')" by (cases fs)
        have "seen' = seen" using Some Inr fs seen_restored(1) by blast
        then have "forEach n h items form' ns seen = Some (Inl CyclicReference)"
          using Some Inr fs Cons.prems p key by simp
        from Cons.IH[OF this] show ?thesis by auto
      qed
    qed
  qed
qed

lemma cyclic_error_fromObject:
  "fromObject n h v form ns seen = Some (Inl CyclicReference)
     \<Longrightarrow> \<exists>b \<in> objects h v. b \<in> seen \<or> (b, b) \<in> (edges h)\<^sup>+"
proof (induction n arbitrary: v form ns seen)
  case 0
  then show ?case by simp
next
  case (Suc n)
  show ?case
  proof (cases v)
    case (Ref a)
    show ?thesis
    proof (cases "a \<in> seen")
      case True
      then show ?thesis using Ref by (auto simp: objects_Ref)
    next
      case False
      have "forEach n h (children (h a)) form ns (insert a seen) = Some (Inl CyclicReference)"
        using Suc.prems Ref fromObject_Ref[OF False, of n h form ns]
        by (auto split: object.splits option.splits sum.splits)
      then have "\<exists>p \<in> set (children (h a)). \<exists>b \<in> objects h (snd p).
                   b \<in> insert a seen \<or> (b, b) \<in> (edges h)\<^sup>+"
        by (rule cyclic_error_forEach[rotated]) (rule Suc.IH)
      then obtain p b where pb: "p \<in> set (children (h a))" "b \<in> objects h (snd p)"
        "b \<in> insert a seen \<or> (b, b) \<in> (edges h)\<^sup>+" by blast
      have in_a: "b \<in> objects h (Ref a)" using pb(1,2) objects_unfold[of h a] by blast
      show ?thesis
      proof (cases "b = a")
        case True
        then have "(a, a) \<in> (edges h)\<^sup>+" using pb(1,2) own_descendant[of a h] by blast
        then show ?thesis using Ref by (auto simp: objects_Ref)
      next
        case False
        then show ?thesis using pb(3) in_a Ref by auto
      qed
    qed
  qed (use Suc.prems in auto)
qed

subsection \<open>A call that returns has met no cycle\<close>

lemma returns_forEach:
  assumes P: "\<And>v form ns seen r. fromObject n h v form ns seen = Some (Inr r)
                \<Longrightarrow> \<forall>b \<in> objects h v. b \<notin> seen \<and> (b, b) \<notin> (edges h)\<^sup>+"
    and "forEach n h items form ns seen = Some (Inr r)"
  shows "\<forall>p \<in> set items. \<forall>b \<in> objects h (snd p). b \<notin> seen \<and> (b, b) \<notin> (edges h)\<^sup>+"
  using assms(2)
proof (induction items arbitrary: form seen)
  case Nil
  then show ?case by simp
next
  case (Cons p items)
  obtain segment item where p: "p = (segment, item)" by (cases p)
  from Cons.prems p obtain key form' seen' where
    first: "fromObject n h item form (Some key) seen = Some (Inr (form', seen'))"
    and rest: "forEach n h items form' ns seen' = Some (Inr r)"
    by (auto split: option.splits sum.splits)
  have "seen' = seen" using first seen_restored(1) by blast
  then show ?case using P[OF first] Cons.IH rest p by auto
qed

lemma returns_fromObject:
  "fromObject n h v form ns seen = Some (Inr r)
     \<Longrightarrow> \<forall>b \<in> objects h v. b \<notin> seen \<and> (b, b) \<notin> (edges h)\<^sup>+"
proof (induction n arbitrary: v form ns seen r)
  case 0
  then show ?case by simp
next
  case (Suc n)
  show ?case
  proof (cases v)
    case (Ref a)
    have a: "a \<notin> seen" using Suc.prems Ref by (auto split: if_splits)
    show ?thesis
    proof (cases "children (h a) = []")
      case True
      then have "(a, a) \<notin> (edges h)\<^sup>+" using own_descendant[of a h] by simp
      then show ?thesis using Ref a True objects_unfold[of h a] by simp
    next
      case False
      then obtain r' where
        "forEach n h (children (h a)) form ns (insert a seen) = Some (Inr r')"
        using Suc.prems Ref fromObject_Ref[OF a, of n h form ns]
        by (auto split: object.splits option.splits sum.splits)
      then have kids: "\<forall>p \<in> set (children (h a)). \<forall>b \<in> objects h (snd p).
                    b \<notin> insert a seen \<and> (b, b) \<notin> (edges h)\<^sup>+"
        by (rule returns_forEach[rotated]) (rule Suc.IH)
      then have "(a, a) \<notin> (edges h)\<^sup>+" using own_descendant[of a h] by auto
      then show ?thesis using Ref a kids objects_unfold[of h a] by auto
    qed
  qed simp_all
qed

subsection \<open>With enough frames, a call ends\<close>

lemma ends_forEach:
  assumes P: "\<And>v form ns seen. finite (objects h v) \<Longrightarrow> card (objects h v - seen) < n
                \<Longrightarrow> fromObject n h v form ns seen \<noteq> None"
    and "\<forall>p \<in> set items. finite (objects h (snd p)) \<and> card (objects h (snd p) - seen) < n"
  shows "forEach n h items form ns seen \<noteq> None"
  using assms(2)
proof (induction items arbitrary: form)
  case Nil
  then show ?case by simp
next
  case (Cons p items)
  obtain segment item where p: "p = (segment, item)" by (cases p)
  show ?case
  proof (cases "formKey ns segment")
    case (Inl e)
    then show ?thesis using p by simp
  next
    case key: (Inr key)
    have first: "fromObject n h item form (Some key) seen \<noteq> None"
      using P[of item seen] Cons.prems p by simp
    show ?thesis
    proof (cases "fromObject n h item form (Some key) seen")
      case None
      then show ?thesis using first by simp
    next
      case (Some r)
      show ?thesis
      proof (cases r)
        case (Inl e)
        then show ?thesis using Some p key by simp
      next
        case (Inr fs)
        obtain form' seen' where fs: "fs = (form', seen')" by (cases fs)
        have "seen' = seen" using Some Inr fs seen_restored(1) by blast
        then show ?thesis using Some Inr fs p key Cons.IH[of form'] Cons.prems by simp
      qed
    qed
  qed
qed

lemma ends_fromObject:
  "finite (objects h v) \<Longrightarrow> card (objects h v - seen) < n
     \<Longrightarrow> fromObject n h v form ns seen \<noteq> None"
proof (induction n arbitrary: v form ns seen)
  case 0
  then show ?case by simp
next
  case (Suc n)
  show ?case
  proof (cases v)
    case (Ref a)
    show ?thesis
    proof (cases "a \<in> seen")
      case True
      then show ?thesis using Ref by simp
    next
      case False
      have fin: "finite (objects h (Ref a))" using Suc.prems(1) Ref by simp
      have a_in: "a \<in> objects h (Ref a) - seen" using False by (simp add: objects_Ref)
      have kids: "\<forall>p \<in> set (children (h a)). finite (objects h (snd p))
                    \<and> card (objects h (snd p) - insert a seen) < n"
      proof
        fix p assume p: "p \<in> set (children (h a))"
        have sub: "objects h (snd p) \<subseteq> objects h (Ref a)"
          using p objects_unfold[of h a] by blast
        then have f: "finite (objects h (snd p))" using fin finite_subset by blast
        have "objects h (snd p) - insert a seen \<subseteq> (objects h (Ref a) - seen) - {a}"
          using sub by blast
        then have "card (objects h (snd p) - insert a seen) \<le> card ((objects h (Ref a) - seen) - {a})"
          using fin by (intro card_mono) auto
        also have "\<dots> < card (objects h (Ref a) - seen)"
          using a_in fin by (intro card_Diff1_less) auto
        finally have "card (objects h (snd p) - insert a seen) < n"
          using Suc.prems(2) Ref by simp
        then show "finite (objects h (snd p)) \<and> card (objects h (snd p) - insert a seen) < n"
          using f by simp
      qed
      from kids have "forEach n h (children (h a)) form ns (insert a seen) \<noteq> None"
        by (rule ends_forEach[rotated]) (rule Suc.IH)
      then show ?thesis using Ref fromObject_Ref[OF False, of n h form ns]
        by (auto split: object.splits option.splits sum.splits)
    qed
  qed simp_all
qed

subsection \<open>The other errors: an invalid date, a key with no string form\<close>

lemma other_error_forEach:
  assumes P: "\<And>v form ns seen e. fromObject n h v form ns seen = Some (Inl e)
                \<Longrightarrow> e = CyclicReference
                    \<or> e = RangeError \<and> (\<exists>b \<in> objects h v. h b = DateObj None)
                    \<or> e = TypeError
                        \<and> (\<exists>b \<in> objects h v. \<not> list_all (\<lambda>p. converts (fst p)) (children (h b)))"
    and "forEach n h items form ns seen = Some (Inl e)"
  shows "e = CyclicReference
         \<or> e = RangeError \<and> (\<exists>p \<in> set items. \<exists>b \<in> objects h (snd p). h b = DateObj None)
         \<or> e = TypeError
             \<and> (\<not> list_all (\<lambda>p. converts (fst p)) items
                \<or> (\<exists>p \<in> set items. \<exists>b \<in> objects h (snd p).
                      \<not> list_all (\<lambda>p. converts (fst p)) (children (h b))))"
  using assms(2)
proof (induction items arbitrary: form seen)
  case Nil
  then show ?case by simp
next
  case (Cons p items)
  obtain segment item where p: "p = (segment, item)" by (cases p)
  show ?case
  proof (cases "formKey ns segment")
    case (Inl e')
    then have "e = TypeError \<and> \<not> converts segment"
      using Cons.prems p formKey_error[OF Inl] by simp
    then show ?thesis using p by simp
  next
    case key: (Inr key)
    show ?thesis
    proof (cases "fromObject n h item form (Some key) seen")
      case None
      then show ?thesis using Cons.prems p key by simp
    next
      case (Some r)
      show ?thesis
      proof (cases r)
        case (Inl e')
        then have "fromObject n h item form (Some key) seen = Some (Inl e)"
          using Some Cons.prems p key by simp
        from P[OF this] show ?thesis using p by auto
      next
        case (Inr fs)
        obtain form' seen' where fs: "fs = (form', seen')" by (cases fs)
        then have "forEach n h items form' ns seen' = Some (Inl e)"
          using Some Inr Cons.prems p key by simp
        from Cons.IH[OF this] show ?thesis by auto
      qed
    qed
  qed
qed

lemma other_error_fromObject:
  "fromObject n h v form ns seen = Some (Inl e)
     \<Longrightarrow> e = CyclicReference
         \<or> e = RangeError \<and> (\<exists>b \<in> objects h v. h b = DateObj None)
         \<or> e = TypeError
             \<and> (\<exists>b \<in> objects h v. \<not> list_all (\<lambda>p. converts (fst p)) (children (h b)))"
proof (induction n arbitrary: v form ns seen e)
  case 0
  then show ?case by simp
next
  case (Suc n)
  show ?case
  proof (cases v)
    case (Ref a)
    show ?thesis
    proof (cases "a \<in> seen")
      case True
      then show ?thesis using Ref Suc.prems by simp
    next
      case False
      show ?thesis
      proof (cases "h a = DateObj None")
        case True
        then show ?thesis using Ref Suc.prems False by (auto simp: objects_Ref)
      next
        case nd: False
        then have "forEach n h (children (h a)) form ns (insert a seen) = Some (Inl e)"
          using Suc.prems Ref fromObject_Ref[OF False, of n h form ns]
          by (auto split: object.splits option.splits sum.splits)
        then have "e = CyclicReference
            \<or> e = RangeError
                \<and> (\<exists>p \<in> set (children (h a)). \<exists>b \<in> objects h (snd p). h b = DateObj None)
            \<or> e = TypeError
                \<and> (\<not> list_all (\<lambda>p. converts (fst p)) (children (h a))
                   \<or> (\<exists>p \<in> set (children (h a)). \<exists>b \<in> objects h (snd p).
                         \<not> list_all (\<lambda>p. converts (fst p)) (children (h b))))"
          by (rule other_error_forEach[rotated]) (rule Suc.IH)
        moreover have "a \<in> objects h (Ref a)" by (simp add: objects_Ref)
        moreover have "b \<in> objects h (Ref a)"
          if "p \<in> set (children (h a))" "b \<in> objects h (snd p)" for p b
          using that objects_unfold[of h a] by blast
        ultimately show ?thesis unfolding Ref by blast
      qed
    qed
  qed (use Suc.prems in auto)
qed

lemma keys_convert_children:
  assumes "keys_convert h v" and "b \<in> objects h v"
  shows "list_all (\<lambda>p. converts (fst p)) (children (h b))"
  using assms by (intro children_convert) (simp add: keys_convert_def)

text \<open>
  C2, as amended. Called at top level with a fresh set \<^verbatim>\<open>seen\<close>:
  \<^item> the encoder raises the cyclic-reference error only if the input is cyclic
    (one of its objects is its own descendant);
  \<^item> on a cyclic input it never returns a form;
  \<^item> an error it raises is the cyclic-reference error, or \<^verbatim>\<open>RangeError\<close>
    on an input with an invalid date, or \<^verbatim>\<open>TypeError\<close> on an input with a
    \<^verbatim>\<open>Map\<close> key that does not convert;
  \<^item> when the call stack has a frame for every object of the input, the call
    ends; on a cyclic input it ends in one of these errors, and that error is
    the cyclic-reference error when the dates of the input are valid and its
    keys convert; on an input that is not cyclic, whose dates are valid and
    whose keys convert, it returns a form, and the set \<^verbatim>\<open>seen\<close> is empty
    again. An object that is reached along several paths, none of them
    through itself, makes no difference: only a cycle does.
\<close>

theorem cycles_are_rejected:
  "(fromObject n h v form ns {} = Some (Inl CyclicReference) \<longrightarrow> cyclic h v)
   \<and> (cyclic h v \<longrightarrow> (\<forall>r. fromObject n h v form ns {} \<noteq> Some (Inr r)))
   \<and> (\<forall>e. fromObject n h v form ns {} = Some (Inl e) \<longrightarrow>
          e = CyclicReference \<or> e = RangeError \<and> \<not> dates_valid h v
          \<or> e = TypeError \<and> \<not> keys_convert h v)
   \<and> (finite (objects h v) \<and> card (objects h v) < n \<longrightarrow>
        (cyclic h v \<longrightarrow>
           (\<exists>e. fromObject n h v form ns {} = Some (Inl e)
               \<and> (e = CyclicReference \<or> e = RangeError \<and> \<not> dates_valid h v
                  \<or> e = TypeError \<and> \<not> keys_convert h v)))
      \<and> (cyclic h v \<and> dates_valid h v \<and> keys_convert h v \<longrightarrow>
            fromObject n h v form ns {} = Some (Inl CyclicReference))
      \<and> (\<not> cyclic h v \<and> dates_valid h v \<and> keys_convert h v \<longrightarrow>
            (\<exists>form'. fromObject n h v form ns {} = Some (Inr (form', {})))))"
proof -
  have one: "cyclic h v" if "fromObject n h v form ns {} = Some (Inl CyclicReference)"
    using cyclic_error_fromObject[OF that] by (auto simp: cyclic_def)
  have two: "fromObject n h v form ns {} \<noteq> Some (Inr r)" if "cyclic h v" for r
    using that returns_fromObject[of n h v form ns "{}" r] by (auto simp: cyclic_def)
  have err: "e = CyclicReference \<or> e = RangeError \<and> \<not> dates_valid h v
               \<or> e = TypeError \<and> \<not> keys_convert h v"
    if "fromObject n h v form ns {} = Some (Inl e)" for e
    using other_error_fromObject[OF that] keys_convert_children[of h v]
    by (auto simp: dates_valid_def)
  have three: "(cyclic h v \<longrightarrow>
           (\<exists>e. fromObject n h v form ns {} = Some (Inl e)
               \<and> (e = CyclicReference \<or> e = RangeError \<and> \<not> dates_valid h v
                  \<or> e = TypeError \<and> \<not> keys_convert h v)))
      \<and> (cyclic h v \<and> dates_valid h v \<and> keys_convert h v \<longrightarrow>
            fromObject n h v form ns {} = Some (Inl CyclicReference))
      \<and> (\<not> cyclic h v \<and> dates_valid h v \<and> keys_convert h v \<longrightarrow>
            (\<exists>form'. fromObject n h v form ns {} = Some (Inr (form', {}))))"
    if fin: "finite (objects h v)" and n: "card (objects h v) < n"
  proof -
    have "fromObject n h v form ns {} \<noteq> None"
      using ends_fromObject[OF fin, of "{}" n form ns] n by simp
    then obtain x where x: "fromObject n h v form ns {} = Some x" by auto
    show ?thesis
    proof (cases x)
      case (Inl e)
      have "fromObject n h v form ns {} = Some (Inl e)" using x Inl by simp
      from err[OF this] show ?thesis using x Inl one by auto
    next
      case (Inr fs)
      obtain form' seen' where fs: "fs = (form', seen')" by (cases fs)
      have "seen' = {}" using x Inr fs seen_restored(1) by blast
      then show ?thesis using x Inr fs two by auto
    qed
  qed
  show ?thesis using one two err three by blast
qed

subsection \<open>Two inputs\<close>

lemma self_in_objects: "a \<in> objects h (Ref a)"
  by (simp add: objects_Ref)

lemma shared_cells:
  "shared 10 = PlainObj [(''a'', Ref 11), (''b'', Ref 11)]"
  "shared 11 = ArrayObj [Some (VString ''x'')]"
  by (simp_all add: shared_def)

lemma looped_cells:
  "looped 10 = PlainObj [(''a'', VNumber ''1''), (''self'', Ref 11)]"
  "looped 11 = ArrayObj [Some (Ref 10)]"
  by (simp_all add: looped_def)

lemma objects_shared1: "objects shared (Ref 11) = {11}"
  by (subst objects_unfold) (simp add: shared_cells)

lemma objects_shared: "objects shared (Ref 10) = {10, 11}"
  by (subst objects_unfold) (simp add: objects_shared1 shared_cells properties_def)

lemma acyclic_shared: "\<not> cyclic shared (Ref 10)"
  by (simp add: cyclic_def objects_shared own_descendant shared_cells objects_shared1
        properties_def)

lemma dates_shared: "dates_valid shared (Ref 10)"
  by (simp add: dates_valid_def objects_shared shared_cells)

lemma keys_shared: "keys_convert shared (Ref 10)"
  by (simp add: keys_convert_def objects_shared shared_cells)


lemma cyclic_looped: "cyclic looped (Ref 10)"
proof -
  have "10 \<in> objects looped (Ref 11)"
    by (subst objects_unfold) (simp add: looped_cells self_in_objects)
  then have "(10, 10) \<in> (edges looped)\<^sup>+"
    by (simp add: own_descendant looped_cells properties_def)
  then show ?thesis using self_in_objects[of 10 looped] by (auto simp: cyclic_def)
qed

lemma objects_looped: "objects looped (Ref 10) = {10, 11}"
proof
  show "objects looped (Ref 10) \<subseteq> {10, 11}"
  proof
    fix b assume "b \<in> objects looped (Ref 10)"
    then have "(10, b) \<in> (edges looped)\<^sup>*" by (simp add: objects_Ref)
    then show "b \<in> {10, 11}"
    proof (induction rule: rtrancl_induct)
      case base
      then show ?case by simp
    next
      case (step y z)
      then have "y = 10 \<or> y = 11" by simp
      then show ?case using step(2) by (auto simp: edges_def looped_cells properties_def)
    qed
  qed
  have "11 \<in> objects looped (Ref 10)"
    by (subst objects_unfold) (simp add: looped_cells self_in_objects properties_def)
  then show "{10, 11} \<subseteq> objects looped (Ref 10)" using self_in_objects[of 10 looped] by simp
qed

text \<open>The witness: the object whose two properties hold the same array is
  encoded, the array twice; the object that contains itself is rejected.\<close>

theorem cycles_are_rejected_witness:
  "fromObject 3 shared (Ref 10) [] None {}
      = Some (Inr ([(''a[0]'', Text ''x''), (''b[0]'', Text ''x'')], {}))
   \<and> fromObject 3 looped (Ref 10) [] None {} = Some (Inl CyclicReference)"
proof -
  have "\<exists>form'. fromObject 3 shared (Ref 10) [] None {} = Some (Inr (form', {}))"
    using cycles_are_rejected[of 3 shared "Ref 10" "[]" None] acyclic_shared dates_shared
      keys_shared
    by (simp add: objects_shared)
  moreover have "fromObject 3 shared (Ref 10) [] None {}
      = Some (Inr ([(''a[0]'', Text ''x''), (''b[0]'', Text ''x'')], {})) \<or>
      (\<forall>form'. fromObject 3 shared (Ref 10) [] None {} \<noteq> Some (Inr (form', {})))"
    by (simp add: shared_cells numeral_3_eq_3 encoder_defs)
  moreover have "fromObject 3 looped (Ref 10) [] None {} = Some (Inl CyclicReference)"
    using cycles_are_rejected[of 3 looped "Ref 10" "[]" None] cyclic_looped
    by (simp add: objects_looped dates_valid_def keys_convert_def looped_cells)
  ultimately show ?thesis by blast
qed

text \<open>
  C2, as stated, fails on inputs that are not cyclic and do not complete. The
  object \<^verbatim>\<open>{ d: new Date(NaN) }\<close> contains no cycle, and encoding it raises
  \<^verbatim>\<open>RangeError\<close>, from \<^verbatim>\<open>toISOString()\<close>. The object
  \<^verbatim>\<open>{ m: new Map([[Symbol('s'), 1]]) }\<close> contains no cycle and no date, and
  encoding it raises \<^verbatim>\<open>TypeError\<close>, from the template literal that
  builds the key \<^verbatim>\<open>m[...]\<close>.
\<close>

theorem acyclic_inputs_that_raise:
  "\<not> cyclic ((\<lambda>a. DateObj None)(10 := PlainObj [(''d'', Ref 11)])) (Ref 10)
   \<and> fromObject 3 ((\<lambda>a. DateObj None)(10 := PlainObj [(''d'', Ref 11)])) (Ref 10) [] None {}
       = Some (Inl RangeError)
   \<and> \<not> cyclic ((\<lambda>a. MapObj [(SymbolKey ''s'', VNumber ''1'')])(10 := PlainObj [(''m'', Ref 11)]))
          (Ref 10)
   \<and> dates_valid ((\<lambda>a. MapObj [(SymbolKey ''s'', VNumber ''1'')])(10 := PlainObj [(''m'', Ref 11)]))
          (Ref 10)
   \<and> fromObject 3 ((\<lambda>a. MapObj [(SymbolKey ''s'', VNumber ''1'')])(10 := PlainObj [(''m'', Ref 11)]))
          (Ref 10) [] None {}
       = Some (Inl TypeError)"
proof -
  let ?h = "(\<lambda>a. DateObj None)(10 := PlainObj [(''d'', Ref 11)])"
  let ?m = "(\<lambda>a. MapObj [(SymbolKey ''s'', VNumber ''1'')])(10 := PlainObj [(''m'', Ref 11)])"
  have o1: "objects ?h (Ref 11) = {11}" by (subst objects_unfold) simp
  have o0: "objects ?h (Ref 10) = {10, 11}"
    by (subst objects_unfold) (simp add: o1 properties_def)
  have "\<not> cyclic ?h (Ref 10)"
    by (simp add: cyclic_def o0 own_descendant o1 properties_def)
  moreover have "fromObject 3 ?h (Ref 10) [] None {} = Some (Inl RangeError)"
    by (simp add: numeral_3_eq_3 properties_def child_key_def)
  moreover have m1: "objects ?m (Ref 11) = {11}" by (subst objects_unfold) simp
  moreover have m0: "objects ?m (Ref 10) = {10, 11}"
    by (subst objects_unfold) (simp add: m1 properties_def)
  moreover have "\<not> cyclic ?m (Ref 10)"
    by (simp add: cyclic_def m0 own_descendant m1 properties_def)
  moreover have "dates_valid ?m (Ref 10)"
    by (simp add: dates_valid_def m0)
  moreover have "fromObject 3 ?m (Ref 10) [] None {} = Some (Inl TypeError)"
    by (simp add: numeral_3_eq_3 properties_def child_key_def)
  ultimately show ?thesis by simp
qed

section \<open>The round trip\<close>

subsection \<open>Splitting the keys the encoder builds\<close>

lemma split_brackets_nonempty: "split_brackets s \<noteq> []"
  by (induction s rule: split_brackets.induct) (auto split: list.splits)

lemma split_plain: "list_all (\<lambda>c. \<not> bracket c) k \<Longrightarrow> split_brackets k = [k]"
  by (induction k) (auto split: list.splits)

lemma split_plain_closed:
  "list_all (\<lambda>c. \<not> bracket c) k \<Longrightarrow> split_brackets (k @ '']'') = [k, []]"
  by (induction k) (auto simp: bracket_def split: list.splits)

lemma split_append_segment:
  assumes "k \<noteq> []" "list_all (\<lambda>c. \<not> bracket c) k"
  shows "hd (split_brackets (s @ ''['' @ k @ '']'')) = hd (split_brackets s)
       \<and> filter (\<lambda>k. k \<noteq> []) (tl (split_brackets (s @ ''['' @ k @ '']'')))
           = filter (\<lambda>k. k \<noteq> []) (tl (split_brackets s)) @ [k]"
proof (induction s rule: split_brackets.induct)
  case 1
  have "dropWhile bracket (k @ '']'') = k @ '']''" using assms by (cases k) auto
  then show ?case using split_plain_closed[OF assms(2)] assms(1) by (simp add: bracket_def)
next
  case (2 c cs)
  let ?x = "''['' @ k @ '']''"
  show ?case
  proof (cases "bracket c")
    case True
    let ?d = "dropWhile bracket cs"
    have l: "split_brackets ((c # cs) @ ?x) = [] # split_brackets (dropWhile bracket (cs @ ?x))"
      using True by simp
    have r: "split_brackets (c # cs) = [] # split_brackets ?d"
      using True by simp
    show ?thesis
    proof (cases "?d = []")
      case d: True
      then have "\<forall>x \<in> set cs. bracket x" by (auto simp: dropWhile_eq_Nil_conv)
      then have "dropWhile bracket (cs @ ?x) = dropWhile bracket ?x"
        by (simp add: dropWhile_append2)
      also have "\<dots> = k @ '']''" using assms by (cases k) (auto simp: bracket_def)
      finally have "split_brackets (dropWhile bracket (cs @ ?x)) = [k, []]"
        using split_plain_closed[OF assms(2)] by simp
      then have l': "split_brackets ((c # cs) @ ?x) = [[], k, []]" using l by simp
      have r': "split_brackets (c # cs) = [[], []]" using r d by simp
      show ?thesis unfolding l' r' using assms(1) by simp
    next
      case d: False
      then obtain x where "x \<in> set cs" "\<not> bracket x" by (auto simp: dropWhile_eq_Nil_conv)
      then have e: "dropWhile bracket (cs @ ?x) = ?d @ ?x" by (simp add: dropWhile_append1)
      have ih: "hd (split_brackets (?d @ ?x)) = hd (split_brackets ?d)
         \<and> filter (\<lambda>k. k \<noteq> []) (tl (split_brackets (?d @ ?x)))
             = filter (\<lambda>k. k \<noteq> []) (tl (split_brackets ?d)) @ [k]"
        using 2(1)[OF True] .
      obtain p ps where s: "split_brackets (?d @ ?x) = p # ps"
        using split_brackets_nonempty by (cases "split_brackets (?d @ ?x)") auto
      obtain p' ps' where s': "split_brackets ?d = p' # ps'"
        using split_brackets_nonempty by (cases "split_brackets ?d") auto
      have l': "split_brackets ((c # cs) @ ?x) = [] # p # ps" using l e s by simp
      have r': "split_brackets (c # cs) = [] # p' # ps'" using r s' by simp
      show ?thesis unfolding l' r' using ih s s' by simp
    qed
  next
    case False
    obtain p ps where s: "split_brackets (cs @ ?x) = p # ps"
      using split_brackets_nonempty by (cases "split_brackets (cs @ ?x)") auto
    obtain p' ps' where s': "split_brackets cs = p' # ps'"
      using split_brackets_nonempty by (cases "split_brackets cs") auto
    have l': "split_brackets ((c # cs) @ ?x) = (c # p) # ps" using False s by simp
    have r': "split_brackets (c # cs) = (c # p') # ps'" using False s' by simp
    show ?thesis unfolding l' r' using 2(2)[OF False] s s' by simp
  qed
qed

lemma segments_plain: "k \<noteq> [] \<Longrightarrow> list_all (\<lambda>c. \<not> bracket c) k \<Longrightarrow> segments k = [k]"
  by (simp add: segments_def split_plain)

lemma segments_append_segment:
  assumes "k \<noteq> []" "list_all (\<lambda>c. \<not> bracket c) k"
  shows "segments (s @ ''['' @ k @ '']'') = segments s @ [k]"
proof -
  let ?x = "s @ ''['' @ k @ '']''"
  obtain p ps where r: "split_brackets ?x = p # ps"
    using split_brackets_nonempty by (cases "split_brackets ?x") auto
  obtain p' ps' where r': "split_brackets s = p' # ps'"
    using split_brackets_nonempty by (cases "split_brackets s") auto
  from split_append_segment[OF assms, of s] r r'
  show ?thesis by (auto simp: segments_def)
qed

subsection \<open>Placing one value is a graft\<close>

lemma update_absent: "map_of ps k = None \<Longrightarrow> update k v ps = ps @ [(k, v)]"
  by (induction ps) (auto split: if_splits)

lemma update_update: "update k v (update k w ps) = update k v ps"
  by (induction ps) auto

lemma clear_empty: "clear (Obj []) p k"
  by (cases p) simp_all

lemma inherited_usable:
  "inherited q = Undefined \<or> inherited q = Value (Fn q)"
  by (simp add: inherited_def)

lemma walk_graft:
  assumes "clear T p k" and "\<forall>q \<in> set p. \<not> all_digits q \<and> q \<noteq> ''__proto__''"
    and "k \<noteq> []" and "k \<noteq> ''__proto__''" and "k \<notin> set object_prototype"
  shows "walk T p k v = Inr (graft T p k v)"
  using assms(1,2)
proof (induction p arbitrary: T)
  case Nil
  then obtain ps where T: "T = Obj ps" and free: "map_of ps k = None"
    by (cases T) auto
  then show ?case using assms(3-5) by (simp add: place_def inherited_def)
next
  case (Cons q p)
  then obtain ps where T: "T = Obj ps" by (cases T) auto
  have q: "\<not> all_digits q" "q \<noteq> ''__proto__''" using Cons.prems(2) by auto
  have rest: "\<forall>q \<in> set p. \<not> all_digits q \<and> q \<noteq> ''__proto__''" using Cons.prems(2) by auto
  show ?case
  proof (cases "map_of ps q")
    case None
    have m: "missing (Obj ps) q"
      using None q(2) inherited_usable[of q] by (auto simp: missing_def)
    have d: "descend (Obj ps) q = Inr (Obj (update q (Obj []) ps), Obj [])"
      using m q by (simp add: descend_def fresh_def map_of_update)
    have "walk (Obj []) p k v = Inr (graft (Obj []) p k v)"
      using Cons.IH[OF clear_empty rest] .
    then show ?thesis using T None d q(2) by (simp add: update_update)
  next
    case (Some c)
    then have c: "clear c p k" using Cons.prems(1) T by simp
    then obtain cs where cs: "c = Obj cs" by (cases c) auto
    have d: "descend (Obj ps) q = Inr (Obj ps, Obj cs)"
      using Some cs q(2) by (simp add: descend_def missing_def)
    have "walk c p k v = Inr (graft c p k v)" using Cons.IH[OF c rest] .
    then show ?thesis using T Some d cs q(2) by simp
  qed
qed

subsection \<open>Grafting the properties of an object one by one\<close>

lemma clear_deeper: "clear T p k \<Longrightarrow> clear T (p @ [k]) k'"
proof (induction p arbitrary: T)
  case Nil
  then show ?case by (cases T) auto
next
  case (Cons q p)
  then show ?case by (cases T) (auto split: option.splits)
qed

lemma graft_first:
  "clear T p k \<Longrightarrow> graft T (p @ [k]) k' t = graft T p k (Obj [(k', t)])"
proof (induction p arbitrary: T)
  case Nil
  then show ?case by (cases T) auto
next
  case (Cons q p)
  then obtain ps where T: "T = Obj ps" by (cases T) auto
  show ?case
  proof (cases "map_of ps q")
    case None
    then show ?thesis using T Cons.IH[OF clear_empty] by simp
  next
    case (Some c)
    then show ?thesis using T Cons.IH[of c] Cons.prems by simp
  qed
qed

lemma graft_next:
  "clear T p k \<Longrightarrow> map_of us k' = None
     \<Longrightarrow> graft (graft T p k (Obj us)) (p @ [k]) k' t = graft T p k (Obj (us @ [(k', t)]))"
proof (induction p arbitrary: T)
  case Nil
  then obtain ps where T: "T = Obj ps" by (cases T) auto
  have "update k' t us = us @ [(k', t)]" using Nil(2) by (rule update_absent)
  then show ?case using T by (simp add: map_of_update update_update)
next
  case (Cons q p)
  then obtain ps where T: "T = Obj ps" by (cases T) auto
  show ?case
  proof (cases "map_of ps q")
    case None
    then show ?thesis
      using T Cons.IH[OF clear_empty Cons.prems(2)] by (simp add: map_of_update update_update)
  next
    case (Some c)
    then show ?thesis
      using T Cons.IH[of c] Cons.prems by (simp add: map_of_update update_update)
  qed
qed

lemma clear_next:
  "clear T p k \<Longrightarrow> map_of us k' = None \<Longrightarrow> clear (graft T p k (Obj us)) (p @ [k]) k'"
proof (induction p arbitrary: T)
  case Nil
  then obtain ps where T: "T = Obj ps" by (cases T) auto
  then show ?case using Nil by (simp add: map_of_update)
next
  case (Cons q p)
  then obtain ps where T: "T = Obj ps" by (cases T) auto
  show ?case
  proof (cases "map_of ps q")
    case None
    then show ?thesis
      using T Cons.IH[OF clear_empty Cons.prems(2)] by (simp add: map_of_update)
  next
    case (Some c)
    then show ?thesis
      using T Cons.IH[of c] Cons.prems by (simp add: map_of_update)
  qed
qed

subsection \<open>Decoding the entries of a tree\<close>

lemma decode_append:
  "decode T (A @ B) = (case decode T A of Inl e \<Rightarrow> Inl e | Inr T' \<Rightarrow> decode T' B)"
  by (induction A arbitrary: T) (auto split: sum.splits)

lemma segment_ok_plain: "segment_ok k \<Longrightarrow> k \<noteq> [] \<and> list_all (\<lambda>c. \<not> bracket c) k \<and> k \<noteq> ''__proto__''"
  by (simp add: segment_ok_def)

lemma survives_segment: "survives k t \<Longrightarrow> segment_ok k"
  by (cases t) auto

lemma decode_children:
  assumes each: "\<And>q T. q \<in> set rest \<Longrightarrow> clear T (p @ [k]) (fst q)
            \<Longrightarrow> decode T (flat (ns @ ''['' @ fst q @ '']'') (snd q))
                  = Inr (graft T (p @ [k]) (fst q) (snd q))"
    and "clear T p k" and "distinct (map fst (us @ rest))"
  shows "decode (graft T p k (Obj us)) (concat (map (\<lambda>q. flat (ns @ ''['' @ fst q @ '']'') (snd q)) rest))
         = Inr (graft T p k (Obj (us @ rest)))"
  using each assms(3)
proof (induction rest arbitrary: us)
  case Nil
  then show ?case by simp
next
  case (Cons q rest)
  have free: "map_of us (fst q) = None"
    using Cons.prems(2) by (auto simp: map_of_eq_None_iff)
  have c: "clear (graft T p k (Obj us)) (p @ [k]) (fst q)"
    using clear_next[OF assms(2) free] .
  have first: "decode (graft T p k (Obj us)) (flat (ns @ ''['' @ fst q @ '']'') (snd q))
               = Inr (graft T p k (Obj (us @ [q])))"
    using Cons.prems(1)[OF _ c] graft_next[OF assms(2) free, of "snd q"] by simp
  have "decode (graft T p k (Obj (us @ [q])))
           (concat (map (\<lambda>q. flat (ns @ ''['' @ fst q @ '']'') (snd q)) rest))
        = Inr (graft T p k (Obj ((us @ [q]) @ rest)))"
    using Cons.IH[of "us @ [q]"] Cons.prems by simp
  then show ?case using first by (simp add: decode_append)
qed

lemma decode_flat:
  assumes "survives k t" and "segments ns = p @ [k]"
    and "\<forall>q \<in> set p. \<not> all_digits q \<and> q \<noteq> ''__proto__''" and "clear T p k"
  shows "decode T (flat ns t) = Inr (graft T p k t)"
  using assms
proof (induction t arbitrary: k ns p T)
  case (Str s)
  have k: "k \<noteq> []" "k \<noteq> ''__proto__''" "k \<notin> set object_prototype"
    using Str.prems(1) by (auto simp: segment_ok_def)
  have "assignNestedValue T (segments ns) (Str s) = walk T p k (Str s)"
    using Str.prems(2) k(1) by (simp add: assignNestedValue_def)
  then show ?case using walk_graft[OF Str.prems(4,3) k] by simp
next
  case (Obj qs)
  have k: "segment_ok k" "\<not> all_digits k" and qs: "qs \<noteq> []" "distinct (map fst qs)"
    and kids: "\<forall>q \<in> set qs. survives (fst q) (snd q)"
    using Obj.prems(1) by (auto simp: list_all_iff)
  have path: "\<forall>q \<in> set (p @ [k]). \<not> all_digits q \<and> q \<noteq> ''__proto__''"
    using Obj.prems(3) k by (auto simp: segment_ok_def)
  have each: "decode T' (flat (ns @ ''['' @ fst q @ '']'') (snd q))
                = Inr (graft T' (p @ [k]) (fst q) (snd q))"
    if "q \<in> set qs" "clear T' (p @ [k]) (fst q)" for q T'
  proof -
    have s: "survives (fst q) (snd q)" using kids that(1) by simp
    then have "segment_ok (fst q)" by (rule survives_segment)
    then have "segments (ns @ ''['' @ fst q @ '']'') = (p @ [k]) @ [fst q]"
      using segments_append_segment[of "fst q" ns] Obj.prems(2) by (simp add: segment_ok_def)
    moreover have "snd q \<in> Basic_BNFs.snds q" by (cases q) simp
    ultimately show ?thesis using Obj.IH[OF that(1) _ s _ path that(2)] by blast
  qed
  obtain q rest where split: "qs = q # rest" using qs(1) by (cases qs) auto
  have "decode T (flat (ns @ ''['' @ fst q @ '']'') (snd q)) = Inr (graft T p k (Obj [q]))"
    using each[of q T] clear_deeper[OF Obj.prems(4)] graft_first[OF Obj.prems(4), of "fst q" "snd q"]
      split by simp
  moreover have "decode (graft T p k (Obj [q]))
          (concat (map (\<lambda>q. flat (ns @ ''['' @ fst q @ '']'') (snd q)) rest))
        = Inr (graft T p k (Obj ([q] @ rest)))"
    using decode_children[of rest p k ns T "[q]"] each Obj.prems(4) qs(2) split by simp
  ultimately show ?case using split by (simp add: decode_append)
qed simp_all

lemma decode_root:
  assumes "distinct (map fst (us @ rest))" and "\<forall>q \<in> set rest. survives (fst q) (snd q)"
  shows "decode (Obj us) (concat (map (\<lambda>q. flat (fst q) (snd q)) rest)) = Inr (Obj (us @ rest))"
  using assms
proof (induction rest arbitrary: us)
  case Nil
  then show ?case by simp
next
  case (Cons q rest)
  have free: "map_of us (fst q) = None"
    using Cons.prems(1) by (auto simp: map_of_eq_None_iff)
  have s: "survives (fst q) (snd q)" using Cons.prems(2) by simp
  then have "segment_ok (fst q)" by (rule survives_segment)
  then have "segments (fst q) = [] @ [fst q]"
    using segments_plain[of "fst q"] by (simp add: segment_ok_def)
  then have "decode (Obj us) (flat (fst q) (snd q)) = Inr (graft (Obj us) [] (fst q) (snd q))"
    using decode_flat[OF s, of "fst q" "[]" "Obj us"] free by simp
  then have first: "decode (Obj us) (flat (fst q) (snd q)) = Inr (Obj (us @ [q]))"
    using update_absent[OF free] by simp
  have "decode (Obj (us @ [q])) (concat (map (\<lambda>q. flat (fst q) (snd q)) rest))
         = Inr (Obj ((us @ [q]) @ rest))"
    using Cons.IH[of "us @ [q]"] Cons.prems by simp
  then show ?case using first by (simp add: decode_append)
qed

subsection \<open>The objects of an input that has a structure\<close>

lemma list_all2_left:
  "list_all2 P xs ys \<Longrightarrow> x \<in> set xs \<Longrightarrow> \<exists>y \<in> set ys. P x y"
  by (induction rule: list_all2_induct) auto

lemma size_property: "q \<in> set qs \<Longrightarrow> size (snd q) < size (Obj qs)"
  by (induction qs) auto

lemma size_element: "Some t \<in> set qs \<Longrightarrow> size t < size (Arr qs ps)"
  by (induction qs) auto

lemma in_indexed: "p \<in> set (indexed i es) \<Longrightarrow> Some (snd p) \<in> set es"
  by (induction i es rule: indexed.induct) auto

text \<open>A child of an object that has a structure has a smaller one.\<close>

lemma structure_child:
  assumes "structure h (Ref a) t" and "p \<in> set (children (h a))"
  shows "\<exists>t'. structure h (snd p) t' \<and> size t' < size t"
  using assms(1)
proof (cases rule: structure.cases)
  case (of_object ps qs)
  have t: "t = Obj qs" and la: "list_all2 (\<lambda>p q. fst p = fst q \<and> structure h (snd p) (snd q)) ps qs"
    using of_object by simp_all
  obtain p0 where "p0 \<in> set ps" "snd p0 = snd p"
    using assms(2) of_object by (auto simp: properties_def)
  then obtain q where "q \<in> set qs" "structure h (snd p) (snd q)"
    using list_all2_left[OF la, of p0] by auto
  then show ?thesis using t size_property by blast
next
  case (of_array es qs)
  have t: "t = Arr qs []"
    and la: "list_all2 (\<lambda>e q. \<exists>v t. e = Some v \<and> q = Some t \<and> structure h v t) es qs"
    using of_array by simp_all
  have "Some (snd p) \<in> set es" using assms(2) of_array in_indexed by simp
  then obtain t' where "Some t' \<in> set qs" "structure h (snd p) t'"
    using list_all2_left[OF la] by force
  then show ?thesis using t size_element by blast
qed

lemma structure_objects:
  "structure h v t \<Longrightarrow> b \<in> objects h v \<Longrightarrow> \<exists>tb. structure h (Ref b) tb \<and> size tb \<le> size t"
proof (induction t arbitrary: v rule: measure_induct_rule[of size])
  case (less t)
  from less.prems(2) obtain a where v: "v = Ref a" by (auto simp: objects_def)
  show ?case
  proof (cases "b = a")
    case True
    then show ?thesis using less.prems(1) v by auto
  next
    case False
    then obtain p where pin: "p \<in> set (children (h a))" and pobj: "b \<in> objects h (snd p)"
      using less.prems(2) v objects_unfold[of h a] by auto
    have "structure h (Ref a) t" using less.prems(1) v by simp
    from structure_child[OF this pin]
    obtain t' where t': "structure h (snd p) t'" "size t' < size t" by blast
    from less.IH[OF t'(2) t'(1) pobj] t'(2) show ?thesis by force
  qed
qed

lemma structure_finite: "structure h v t \<Longrightarrow> finite (objects h v)"
proof (induction t arbitrary: v rule: measure_induct_rule[of size])
  case (less t)
  show ?case
  proof (cases v)
    case (Ref a)
    have sa: "structure h (Ref a) t" using less.prems Ref by simp
    have "finite (objects h (snd p))" if "p \<in> set (children (h a))" for p
    proof -
      from structure_child[OF sa that]
      obtain t' where "structure h (snd p) t'" "size t' < size t" by blast
      then show ?thesis using less.IH by blast
    qed
    then show ?thesis using Ref objects_unfold[of h a] by simp
  qed simp_all
qed

lemma structure_acyclic:
  "structure h (Ref a) t \<Longrightarrow> (a, a) \<notin> (edges h)\<^sup>+"
proof (induction t rule: measure_induct_rule[of size])
  case (less t)
  show ?case
  proof
    assume "(a, a) \<in> (edges h)\<^sup>+"
    then obtain p where p: "p \<in> set (children (h a))" "a \<in> objects h (snd p)"
      using own_descendant[of a h] by blast
    from structure_child[OF less.prems p(1)]
    obtain t' where t': "structure h (snd p) t'" "size t' < size t" by blast
    from structure_objects[OF t'(1) p(2)]
    obtain ta where ta: "structure h (Ref a) ta" "size ta \<le> size t'" by blast
    then have "size ta < size t" using t'(2) by simp
    from less.IH[OF this ta(1)] \<open>(a, a) \<in> (edges h)\<^sup>+\<close> show False by simp
  qed
qed

lemma structure_not_cyclic: "structure h v t \<Longrightarrow> \<not> cyclic h v"
  using structure_objects structure_acyclic by (fastforce simp: cyclic_def)

lemma structure_no_date:
  "structure h v t \<Longrightarrow> b \<in> objects h v \<Longrightarrow> h b \<noteq> DateObj None"
proof -
  assume "structure h v t" "b \<in> objects h v"
  then obtain tb where "structure h (Ref b) tb" using structure_objects by blast
  then show ?thesis by (cases rule: structure.cases) auto
qed

lemma structure_keys:
  "structure h v t \<Longrightarrow> b \<in> objects h v \<Longrightarrow> list_all (\<lambda>p. converts (fst p)) (children (h b))"
proof -
  assume "structure h v t" "b \<in> objects h v"
  then obtain tb where "structure h (Ref b) tb" using structure_objects by blast
  then have "\<forall>kvs. h b \<noteq> MapObj kvs" by (cases rule: structure.cases) auto
  then show ?thesis by (intro children_convert) simp
qed

subsection \<open>Encoding an input that has a structure\<close>

lemma structure_defined: "structure h v t \<Longrightarrow> v \<noteq> VUndefined"
  by (cases rule: structure.cases) auto

lemma children_all:
  "list_all2 (\<lambda>p q. fst p = fst q \<and> structure h (snd p) (snd q)) ps qs
     \<Longrightarrow> children (PlainObj ps) = map (\<lambda>p. (Key (fst p), snd p)) ps"
  by (induction rule: list_all2_induct) (auto simp: properties_def dest: structure_defined)

lemma encode_children:
  assumes P: "\<And>v t k ns form seen form' seen'. structure h v t \<Longrightarrow> survives k t \<Longrightarrow> ns \<noteq> []
              \<Longrightarrow> fromObject n h v form (Some ns) seen = Some (Inr (form', seen'))
              \<Longrightarrow> form' = form @ flat ns t"
    and "list_all2 (\<lambda>p q. fst p = fst q \<and> structure h (snd p) (snd q)) ps qs"
    and "\<forall>q \<in> set qs. survives (fst q) (snd q)"
    and "\<forall>q \<in> set qs. child_key namespace (fst q) = key (fst q) \<and> key (fst q) \<noteq> []"
    and "forEach n h (map (\<lambda>p. (Key (fst p), snd p)) ps) form namespace seen
           = Some (Inr (form', seen'))"
  shows "form' = form @ concat (map (\<lambda>q. flat (key (fst q)) (snd q)) qs)"
  using assms(2-5)
proof (induction arbitrary: form seen rule: list_all2_induct)
  case Nil
  then show ?case by simp
next
  case (Cons p ps q qs)
  obtain segment item where p: "p = (segment, item)" by (cases p)
  from Cons.prems(3) p obtain form1 seen1 where
    first: "fromObject n h item form (Some (child_key namespace segment)) seen = Some (Inr (form1, seen1))"
    and rest: "forEach n h (map (\<lambda>p. (Key (fst p), snd p)) ps) form1 namespace seen1
                 = Some (Inr (form', seen'))"
    by (auto split: option.splits sum.splits)
  have k: "child_key namespace segment = key (fst q)" "key (fst q) \<noteq> []"
    using Cons.prems(2) Cons.hyps(1) p by auto
  have "structure h item (snd q)" "survives (fst q) (snd q)"
    using Cons.hyps(1) Cons.prems(1) p by auto
  then have "form1 = form @ flat (key (fst q)) (snd q)"
    using P first k by metis
  moreover have "form' = form1 @ concat (map (\<lambda>q. flat (key (fst q)) (snd q)) qs)"
    using Cons.IH[OF _ _ rest] Cons.prems(1,2) by simp
  ultimately show ?case by simp
qed

lemma encode_flat:
  "structure h v t \<Longrightarrow> survives k t \<Longrightarrow> ns \<noteq> []
     \<Longrightarrow> fromObject n h v form (Some ns) seen = Some (Inr (form', seen'))
     \<Longrightarrow> form' = form @ flat ns t"
proof (induction n arbitrary: v t k ns form seen form' seen')
  case 0
  then show ?case by simp
next
  case (Suc n)
  from Suc.prems(1) show ?case
  proof (cases rule: structure.cases)
    case (of_object a ps qs)
    have a: "a \<notin> seen" using Suc.prems(4) of_object by (auto split: if_splits)
    have la: "list_all2 (\<lambda>p q. fst p = fst q \<and> structure h (snd p) (snd q)) ps qs"
      using of_object by simp
    have kids: "\<forall>q \<in> set qs. survives (fst q) (snd q)"
      using Suc.prems(2) of_object by (auto simp: list_all_iff)
    obtain s where "forEach n h (map (\<lambda>p. (Key (fst p), snd p)) ps) form (Some ns) (insert a seen)
                      = Some (Inr (form', s))"
      using Suc.prems(4) of_object fromObject_Ref[OF a, of n h form "Some ns"] children_all[OF la]
      by (auto split: option.splits sum.splits)
    then have "form' = form @ concat (map (\<lambda>q. flat (ns @ ''['' @ fst q @ '']'') (snd q)) qs)"
      using Suc.prems(3)
      by (intro encode_children[where key="\<lambda>k. ns @ ''['' @ k @ '']''", OF Suc.IH la kids])
         (auto simp: child_key_def)
    then show ?thesis using of_object by simp
  next
    case (of_array a es qs)
    then show ?thesis using Suc.prems(2) by simp
  qed (use Suc.prems in \<open>auto simp: name_def\<close>)
qed

lemma encode_root:
  assumes "structure h x (Obj qs)" and "survives_root (Obj qs)"
    and "fromObject n h x form None seen = Some (Inr (form', seen'))"
  shows "form' = form @ concat (map (\<lambda>q. flat (fst q) (snd q)) qs)"
proof (cases n)
  case 0
  then show ?thesis using assms(3) by simp
next
  case (Suc m)
  from assms(1) show ?thesis
  proof (cases rule: structure.cases)
    case (of_object a ps)
    have a: "a \<notin> seen" using assms(3) of_object Suc by (auto split: if_splits)
    have la: "list_all2 (\<lambda>p q. fst p = fst q \<and> structure h (snd p) (snd q)) ps qs"
      using of_object by simp
    have kids: "\<forall>q \<in> set qs. survives (fst q) (snd q)"
      using assms(2) by (auto simp: list_all_iff)
    then have keys: "\<forall>q \<in> set qs. child_key None (fst q) = fst q \<and> fst q \<noteq> []"
      using survives_segment by (auto simp: child_key_def segment_ok_def)
    obtain s where "forEach m h (map (\<lambda>p. (Key (fst p), snd p)) ps) form None (insert a seen)
                      = Some (Inr (form', s))"
      using assms(3) of_object Suc fromObject_Ref[OF a, of m h form None] children_all[OF la]
      by (auto split: option.splits sum.splits)
    then show ?thesis
      by (intro encode_children[where key="\<lambda>k. k", OF encode_flat la kids keys])
  qed
qed

subsection \<open>Decoding what was encoded\<close>

text \<open>
  C1, as amended. Let the input be a plain object whose values are strings,
  numbers, booleans and plain objects that are not empty, built the same way
  in turn; let every property name be a usable segment (not empty, without a
  bracket, not \<^verbatim>\<open>__proto__\<close>), no property that holds a primitive be
  named like a member of \<^verbatim>\<open>Object.prototype\<close>, and no property that
  holds an object have a name that is all digits. Then, with a frame of the
  call stack for every object, encoding the input returns a form, and
  decoding that form returns the structure of the input with every leaf as
  the string form of the primitive. Arrays are not covered.
\<close>

theorem round_trip:
  assumes "structure h x t" and "survives_root t" and "card (objects h x) < n"
  shows "\<exists>form. fromObject n h x [] None {} = Some (Inr (form, {})) \<and> toObject form = Inr t"
proof -
  obtain qs where t: "t = Obj qs" using assms(2) by (cases t) auto
  have kids: "distinct (map fst qs)" "\<forall>q \<in> set qs. survives (fst q) (snd q)"
    using assms(2) t by (auto simp: list_all_iff)
  have "fromObject n h x [] None {} \<noteq> None"
    using ends_fromObject[OF structure_finite[OF assms(1)], of "{}" n "[]" None] assms(3) by simp
  then obtain r where r: "fromObject n h x [] None {} = Some r" by auto
  show ?thesis
  proof (cases r)
    case (Inl e)
    from other_error_fromObject[of n h x "[]" None "{}" e] r Inl
    have "e = CyclicReference"
      using structure_no_date[OF assms(1)] structure_keys[OF assms(1)] by auto
    then have "\<exists>b \<in> objects h x. (b, b) \<in> (edges h)\<^sup>+"
      using cyclic_error_fromObject[of n h x "[]" None "{}"] r Inl by auto
    then have "cyclic h x" by (simp add: cyclic_def)
    then show ?thesis using structure_not_cyclic[OF assms(1)] by simp
  next
    case (Inr fs)
    obtain form seen' where fs: "fs = (form, seen')" by (cases fs)
    have run: "fromObject n h x [] None {} = Some (Inr (form, seen'))" using r Inr fs by simp
    have "seen' = {}" using seen_restored(1)[OF run] .
    moreover have "form = concat (map (\<lambda>q. flat (fst q) (snd q)) qs)"
      using encode_root[OF _ _ run, of qs] assms(1,2) t by simp
    moreover have "decode (Obj []) (concat (map (\<lambda>q. flat (fst q) (snd q)) qs)) = Inr (Obj ([] @ qs))"
      by (rule decode_root) (use kids in auto)
    ultimately show ?thesis using run t by (auto simp: toObject_def)
  qed
qed

text \<open>The witness: \<^verbatim>\<open>{ user: { name: "Alice", age: 30 }, ok: true }\<close>.\<close>

lemma nested_cells:
  "nested 10 = PlainObj [(''user'', Ref 11), (''ok'', VBoolean True)]"
  "nested 11 = PlainObj [(''name'', VString ''Alice''), (''age'', VNumber ''30'')]"
  by (simp_all add: nested_def)

lemma nested_structure:
  "structure nested (Ref 10)
     (Obj [(''user'', Obj [(''name'', Str ''Alice''), (''age'', Str ''30'')]), (''ok'', Str ''true'')])"
proof -
  have inner: "structure nested (Ref 11) (Obj [(''name'', Str ''Alice''), (''age'', Str ''30'')])"
    by (rule structure.of_object[of nested 11, OF nested_cells(2)]) (simp add: structure.of_string structure.of_number)
  have "structure nested (VBoolean True) (Str (String_boolean True))" by (rule structure.of_boolean)
  then have "structure nested (VBoolean True) (Str ''true'')" by (simp add: String_boolean_def)
  then show ?thesis
    by (intro structure.of_object[of nested 10, OF nested_cells(1)]) (simp add: inner)
qed

lemma nested_objects: "objects nested (Ref 10) = {10, 11}"
proof -
  have "objects nested (Ref 11) = {11}"
    by (subst objects_unfold) (simp add: nested_cells properties_def)
  then show ?thesis by (subst objects_unfold) (simp add: nested_cells properties_def)
qed

theorem round_trip_witness:
  "fromObject 3 nested (Ref 10) [] None {}
     = Some (Inr ([(''user[name]'', Text ''Alice''), (''user[age]'', Text ''30''), (''ok'', Text ''true'')], {}))
   \<and> toObject [(''user[name]'', Text ''Alice''), (''user[age]'', Text ''30''), (''ok'', Text ''true'')]
     = Inr (Obj [(''user'', Obj [(''name'', Str ''Alice''), (''age'', Str ''30'')]), (''ok'', Str ''true'')])"
proof -
  let ?t = "Obj [(''user'', Obj [(''name'', Str ''Alice''), (''age'', Str ''30'')]), (''ok'', Str ''true'')]"
  have s: "survives_root ?t"
    by (simp add: segment_ok_def bracket_def all_digits_def digit_def object_prototype_def)
  have c: "card (objects nested (Ref 10)) < 3" by (simp add: nested_objects)
  from round_trip[OF nested_structure s c]
  obtain form where "fromObject 3 nested (Ref 10) [] None {} = Some (Inr (form, {}))"
    and "toObject form = Inr ?t" by blast
  moreover have "fromObject 3 nested (Ref 10) [] None {}
     = Some (Inr ([(''user[name]'', Text ''Alice''), (''user[age]'', Text ''30''), (''ok'', Text ''true'')], {}))"
    by (simp add: nested_cells numeral_3_eq_3 encoder_defs)
  ultimately show ?thesis by simp
qed

text \<open>
  C1, as stated, fails. An empty object inside the input leaves no entry, and
  the decoder returns the root without it. And an array inside the input
  comes back as a mapping with the indices as keys: the decoder makes the
  container of a segment a sequence when that segment itself is all digits,
  and the segment of the array is its property name.
\<close>

lemma empty_inside_cells:
  "empty_inside 10 = PlainObj [(''a'', Ref 11)]" "empty_inside 11 = PlainObj []"
  by (simp_all add: empty_inside_def)

lemma array_inside_cells:
  "array_inside 10 = PlainObj [(''a'', Ref 11)]" "array_inside 11 = ArrayObj [Some (VString ''x'')]"
  by (simp_all add: array_inside_def)

theorem round_trip_loses_structure:
  "structure empty_inside (Ref 10) (Obj [(''a'', Obj [])])
   \<and> fromObject 3 empty_inside (Ref 10) [] None {} = Some (Inr ([], {}))
   \<and> toObject [] = Inr (Obj [])
   \<and> structure array_inside (Ref 10) (Obj [(''a'', Arr [Some (Str ''x'')] [])])
   \<and> fromObject 3 array_inside (Ref 10) [] None {} = Some (Inr ([(''a[0]'', Text ''x'')], {}))
   \<and> toObject [(''a[0]'', Text ''x'')] = Inr (Obj [(''a'', Obj [(''0'', Str ''x'')])])"
proof -
  have "structure empty_inside (Ref 11) (Obj [])"
    by (rule structure.of_object[of empty_inside 11, OF empty_inside_cells(2)]) simp
  then have 1: "structure empty_inside (Ref 10) (Obj [(''a'', Obj [])])"
    by (intro structure.of_object[of empty_inside 10, OF empty_inside_cells(1)]) simp
  have 2: "fromObject 3 empty_inside (Ref 10) [] None {} = Some (Inr ([], {}))"
    by (simp add: empty_inside_cells numeral_3_eq_3 encoder_defs)
  have 3: "toObject [] = Inr (Obj [])" by (simp add: toObject_def)
  have "structure array_inside (Ref 11) (Arr [Some (Str ''x'')] [])"
    by (rule structure.of_array[of array_inside 11, OF array_inside_cells(2)]) (simp add: structure.of_string)
  then have 4: "structure array_inside (Ref 10) (Obj [(''a'', Arr [Some (Str ''x'')] [])])"
    by (intro structure.of_object[of array_inside 10, OF array_inside_cells(1)]) simp
  have 5: "fromObject 3 array_inside (Ref 10) [] None {} = Some (Inr ([(''a[0]'', Text ''x'')], {}))"
    by (simp add: array_inside_cells numeral_3_eq_3 encoder_defs)
  have 6: "toObject [(''a[0]'', Text ''x'')] = Inr (Obj [(''a'', Obj [(''0'', Str ''x'')])])"
    by (simp add: decoder_defs)
  show ?thesis using 1 2 3 4 5 6 by simp
qed

end
